theory Spec2Isabelle
  imports Complex_Main
begin

text \<open>
  The calendar allocation engine of the Math Curriculum Planner (\<open>utils/scheduling\<close>):
  \<open>calculateInstructionalStats\<close>, \<open>getWeekDateRanges\<close>, \<open>generateEmptyWeeks\<close> and
  \<open>distributeLessons\<close>, embedded as functions of HOL, with the properties the
  specification states about them.
\<close>

section \<open>Dates\<close>

text \<open>
  A JavaScript \<open>Date\<close> holds a time value in milliseconds, or NaN (an Invalid Date).
  The scheduling module reads dates through date-fns, which works in local time.  The
  model takes the local zone to be a constant offset \<open>zone\<close> from UTC, in milliseconds
  (negative west of Greenwich), without daylight-saving shifts, and keeps a valid date
  as its local millisecond count \<open>t\<close> (its time value plus the offset); its calendar
  day is \<open>t div dayMs\<close>.  Day 0 (1 January 1970) is a Thursday.  The offset matters
  where a date text is read: \<open>new Date\<close> reads a date-only text as midnight UTC.

  Rendered texts are kept by what they spell: \<open>format(d, 'yyyy-MM-dd')\<close> is the
  calendar day number of \<open>d\<close> (two such texts are equal exactly when the days are),
  \<open>format(d, 'MMM d')\<close> likewise, and \<open>d.toISOString()\<close> is the instant itself.
\<close>

type_synonym instant = int
type_synonym jsdate = "instant option"

definition dayMs :: int where
  "dayMs = 86400000"

definition isValid :: "jsdate \<Rightarrow> bool" where
  "isValid d = (d \<noteq> None)"

definition startOfDay :: "instant \<Rightarrow> instant" where
  "startOfDay t = (t div dayMs) * dayMs"

definition endOfDay :: "instant \<Rightarrow> instant" where
  "endOfDay t = (t div dayMs) * dayMs + (dayMs - 1)"

definition addDays :: "instant \<Rightarrow> int \<Rightarrow> instant" where
  "addDays t n = t + n * dayMs"

definition getDay :: "instant \<Rightarrow> int" where
  "getDay t = (t div dayMs + 4) mod 7"

definition isBefore :: "instant \<Rightarrow> instant \<Rightarrow> bool" where
  "isBefore a b = (a < b)"

definition isAfter :: "instant \<Rightarrow> instant \<Rightarrow> bool" where
  "isAfter a b = (a > b)"

definition differenceInCalendarDays :: "instant \<Rightarrow> instant \<Rightarrow> int" where
  "differenceInCalendarDays a b = a div dayMs - b div dayMs"

definition format_yyyy_MM_dd :: "instant \<Rightarrow> int" where
  "format_yyyy_MM_dd t = t div dayMs"

definition format_MMM_d :: "instant \<Rightarrow> int" where
  "format_MMM_d t = t div dayMs"

definition format_EEEE :: "instant \<Rightarrow> string" where
  "format_EEEE t =
     [''Sunday'', ''Monday'', ''Tuesday'', ''Wednesday'', ''Thursday'', ''Friday'', ''Saturday'']
       ! nat (getDay t)"

text \<open>
  \<open>eachDayOfInterval\<close> lists the start of every calendar day from the day of its first
  argument to the day of its second.  Its only caller passes \<open>startOfDay start\<close> and
  \<open>endOfDay end\<close> with \<open>start \<le> end\<close>.
\<close>

definition eachDayOfInterval :: "instant \<Rightarrow> instant \<Rightarrow> instant list" where
  "eachDayOfInterval s e = map (\<lambda>d. d * dayMs) [s div dayMs .. e div dayMs]"

section \<open>Records of the planner\<close>

datatype BlockType = Exam | Revision | Event | Holiday | Meeting

text \<open>
  The \<open>date\<close> of a day-level exclusion is typed \<open>string\<close>, and \<open>parseISOIfNeeded\<close> also
  takes a \<open>Date\<close>.  The texts are kept by what they spell: a date-only text
  \<open>yyyy-MM-dd\<close> (what the interface stores) is the calendar day it names; a date-time
  text is the instant it denotes; any other text does not parse.
\<close>

datatype dateInput =
    DateObject jsdate
  | DateOnlyText int
  | DateTimeText instant
  | OtherText

text \<open>
  \<open>new Date(text)\<close>: a date-only text is read as midnight UTC of its day, which is the
  local count \<open>d * dayMs + zone\<close>.
\<close>

definition newDate :: "int \<Rightarrow> dateInput \<Rightarrow> jsdate" where
  "newDate zone x =
     (case x of
        DateObject d \<Rightarrow> d
      | DateOnlyText d \<Rightarrow> Some (d * dayMs + zone)
      | DateTimeText t \<Rightarrow> Some t
      | OtherText \<Rightarrow> None)"

record BlockedDate =
  bd_date :: dateInput
  bd_label :: string
  bd_type :: BlockType

record BlockedWeek =
  bw_weekNumber :: int
  bw_label :: string
  bw_type :: BlockType
  excludeFromCount :: bool

text \<open>
  A JavaScript number as far as \<open>pacing\<close> is compared: NaN, a finite value (every
  double is a rational) or an infinity.
\<close>

datatype jsnumber = NaN | Num rat | PosInf | NegInf

record Lesson =
  lesson_id :: string
  lesson_name :: string
  ccss :: string
  pacing :: jsnumber

record DayPlan =
  date :: instant
  dayName :: string
  isBlocked :: bool
  blockLabel :: "string option"
  lessonId :: "string option"
  lessonName :: "string option"

record WeekPlan =
  weekNumber :: "nat option"
  displayWeekLabel :: string
  dates :: "int \<times> int"
  days :: "DayPlan list"
  wk_isBlocked :: bool
  wk_blockLabel :: "string option"

record Stats =
  totalDays :: nat
  totalWeeks :: nat

record WeekRange =
  wr_weekNumber :: int
  range :: "int \<times> int"

section \<open>Week arithmetic\<close>

definition SCHOOL_DAYS :: "int list" where
  "SCHOOL_DAYS = [0, 1, 2, 3, 4]"

text \<open>\<open>while (getDay(d) !== 0) d = addDays(d, -1)\<close>\<close>

function alignSunday :: "instant \<Rightarrow> instant" where
  "alignSunday t = (if getDay t \<noteq> 0 then alignSunday (addDays t (-1)) else t)"
  by pat_completeness auto
termination
proof (relation "measure (\<lambda>t. nat (getDay t))")
  show "wf (measure (\<lambda>t. nat (getDay t)))" by simp
next
  fix t :: int
  assume nz: "getDay t \<noteq> 0"
  have shift: "(t + (-1) * dayMs) div dayMs = t div dayMs - 1"
    by (simp add: dayMs_def)
  have "\<And>x::int. (x + 4) mod 7 \<noteq> 0 \<Longrightarrow>
      0 < (x + 4) mod 7 \<and> (x - 1 + 4) mod 7 < (x + 4) mod 7"
    by presburger
  with nz shift show "(addDays t (-1), t) \<in> measure (\<lambda>t. nat (getDay t))"
    unfolding getDay_def addDays_def by simp
qed

declare alignSunday.simps [simp del]

text \<open>
  \<open>parseISOIfNeeded\<close> returns a \<open>Date\<close> as it is and reads a text with \<open>new Date\<close>; a
  text that does not parse gives an invalid date.
\<close>

definition parseISOIfNeeded :: "int \<Rightarrow> dateInput \<Rightarrow> jsdate" where
  "parseISOIfNeeded zone x =
     (case x of
        DateObject d \<Rightarrow> d
      | _ \<Rightarrow> (let d = newDate zone x in if isValid d then d else None))"

text \<open>The helper \<open>getWeekNum\<close> of \<open>calculateInstructionalStats\<close> (it closes over \<open>start\<close>).\<close>

definition getWeekNum :: "instant \<Rightarrow> instant \<Rightarrow> int" where
  "getWeekNum start d =
     (let firstSunday = alignSunday (startOfDay start);
          diff = differenceInCalendarDays (startOfDay d) firstSunday
      in diff div 7 + 1)"

section \<open>calculateInstructionalStats\<close>

definition blockedDateStrings :: "int \<Rightarrow> BlockedDate list \<Rightarrow> int list" where
  "blockedDateStrings zone blockedDates =
     List.map_filter (\<lambda>bd. map_option format_yyyy_MM_dd (parseISOIfNeeded zone (bd_date bd)))
       blockedDates"

definition calculateInstructionalStats ::
  "int \<Rightarrow> jsdate \<Rightarrow> jsdate \<Rightarrow> BlockedDate list \<Rightarrow> BlockedWeek list \<Rightarrow> Stats" where
  "calculateInstructionalStats zone start end blockedDates blockedWeeks =
     (case (start, end) of
        (Some s, Some e) \<Rightarrow>
          if isAfter s e then \<lparr>totalDays = 0, totalWeeks = 0\<rparr>
          else
            let allDays = eachDayOfInterval (startOfDay s) (endOfDay e);
                schoolDays = filter (\<lambda>d. getDay d \<in> set SCHOOL_DAYS) allDays;
                availableDays =
                  filter (\<lambda>day.
                    if format_yyyy_MM_dd day \<in> set (blockedDateStrings zone blockedDates) then False
                    else \<not> list_ex (\<lambda>bw. bw_weekNumber bw = getWeekNum s day) blockedWeeks)
                  schoolDays
            in \<lparr>totalDays = length availableDays,
                totalWeeks = nat \<lceil>(of_nat (length availableDays) :: rat) / 5\<rceil>\<rparr>
      | _ \<Rightarrow> \<lparr>totalDays = 0, totalWeeks = 0\<rparr>)"

section \<open>getWeekDateRanges\<close>

function rangesLoop :: "instant \<Rightarrow> instant \<Rightarrow> instant \<Rightarrow> int \<Rightarrow> WeekRange list" where
  "rangesLoop start finish current weekCounter =
     (if isBefore current finish then
        (let weekStart = current;
             weekEnd = addDays weekStart 4;
             overlaps = (\<not> isAfter weekStart finish \<and> \<not> isBefore weekEnd (startOfDay start))
         in (if overlaps
             then [\<lparr>wr_weekNumber = weekCounter,
                    range = (format_MMM_d weekStart, format_MMM_d weekEnd)\<rparr>]
             else [])
            @ rangesLoop start finish (addDays weekStart 7) (weekCounter + 1))
      else [])"
  by pat_completeness auto
termination
  by (relation "measure (\<lambda>(start, finish, current, weekCounter). nat (finish - current))")
     (auto simp: isBefore_def addDays_def dayMs_def)

declare rangesLoop.simps [simp del]

definition getWeekDateRanges :: "jsdate \<Rightarrow> jsdate \<Rightarrow> WeekRange list" where
  "getWeekDateRanges start end =
     (case (start, end) of
        (Some s, Some e) \<Rightarrow> rangesLoop s (endOfDay e) (alignSunday (startOfDay s)) 1
      | _ \<Rightarrow> [])"

section \<open>generateEmptyWeeks\<close>

text \<open>\<open>a || b\<close> on optional texts: the empty text and \<open>undefined\<close> are falsy.\<close>

definition js_or :: "string option \<Rightarrow> string option \<Rightarrow> string option" where
  "js_or a b = (case a of Some s \<Rightarrow> (if s \<noteq> [] then Some s else b) | None \<Rightarrow> b)"

fun showNat :: "nat \<Rightarrow> string" where
  "showNat n =
     (if n < 10 then [''0123456789'' ! n]
      else showNat (n div 10) @ [''0123456789'' ! (n mod 10)])"

definition findDateBlock :: "int \<Rightarrow> BlockedDate list \<Rightarrow> int \<Rightarrow> BlockedDate option" where
  "findDateBlock zone blockedDates dateStr =
     find (\<lambda>b. case parseISOIfNeeded zone (bd_date b) of
                  None \<Rightarrow> False
                | Some d \<Rightarrow> format_yyyy_MM_dd d = dateStr) blockedDates"

text \<open>
  The inner \<open>for (let i = 0; i < 7; i++)\<close> loop, run over the offsets still to visit;
  \<open>break\<close> ends the week, \<open>continue\<close> goes to the next offset.
\<close>

fun dayLoop ::
  "int \<Rightarrow> instant \<Rightarrow> instant \<Rightarrow> BlockedDate list \<Rightarrow> BlockedWeek option \<Rightarrow> instant \<Rightarrow> nat list
     \<Rightarrow> DayPlan list" where
  "dayLoop zone start finish blockedDates weekBlock weekStart [] = []"
| "dayLoop zone start finish blockedDates weekBlock weekStart (i # rest) =
     (let day = addDays weekStart (int i) in
      if isAfter day finish then []
      else if isBefore day (startOfDay start)
        then dayLoop zone start finish blockedDates weekBlock weekStart rest
      else
        let dNum = getDay day;
            pushed =
              (if dNum \<in> set SCHOOL_DAYS then
                 (let dateStr = format_yyyy_MM_dd day;
                      dateBlock = findDateBlock zone blockedDates dateStr
                  in [\<lparr>date = day,
                       dayName = format_EEEE day,
                       isBlocked = (weekBlock \<noteq> None \<or> dateBlock \<noteq> None),
                       blockLabel = js_or (map_option bw_label weekBlock)
                                          (map_option bd_label dateBlock),
                       lessonId = None,
                       lessonName = None\<rparr>])
               else [])
        in if dNum = 4 then pushed
           else pushed @ dayLoop zone start finish blockedDates weekBlock weekStart rest)"

text \<open>
  The tail of the outer loop body: a week with at least one day is pushed, numbered
  unless its exclusion is excluded from the count.  The result is the pushed week (if
  any) and the next value of \<open>instructionalWeekCounter\<close>.
\<close>

definition emitWeek ::
  "BlockedWeek option \<Rightarrow> DayPlan list \<Rightarrow> nat \<Rightarrow> WeekPlan list \<times> nat" where
  "emitWeek weekBlock weekDays instructionalWeekCounter =
     (if length weekDays > 0 then
        (let (displayLabel, assignedWeekNumber, next) =
               (case weekBlock of
                  Some wb \<Rightarrow>
                    if excludeFromCount wb
                    then (if bw_label wb \<noteq> [] then bw_label wb else ''Holiday Break'',
                          None, instructionalWeekCounter)
                    else (''Week '' @ showNat instructionalWeekCounter,
                          Some instructionalWeekCounter, instructionalWeekCounter + 1)
                | None \<Rightarrow>
                    (''Week '' @ showNat instructionalWeekCounter,
                     Some instructionalWeekCounter, instructionalWeekCounter + 1))
         in ([\<lparr>weekNumber = assignedWeekNumber,
                displayWeekLabel = displayLabel,
                dates = (format_MMM_d (date (hd weekDays)), format_MMM_d (date (last weekDays))),
                days = weekDays,
                wk_isBlocked = (weekBlock \<noteq> None),
                wk_blockLabel = map_option bw_label weekBlock\<rparr>], next))
      else ([], instructionalWeekCounter))"

function weeksLoop ::
  "int \<Rightarrow> instant \<Rightarrow> instant \<Rightarrow> BlockedDate list \<Rightarrow> BlockedWeek list \<Rightarrow> instant \<Rightarrow> int \<Rightarrow> nat
     \<Rightarrow> WeekPlan list" where
  "weeksLoop zone start finish blockedDates blockedWeeks weekStart rawWeekCounter
       instructionalWeekCounter =
     (if isBefore weekStart finish then
        (let weekBlock = find (\<lambda>bw. bw_weekNumber bw = rawWeekCounter) blockedWeeks;
             weekDays = dayLoop zone start finish blockedDates weekBlock weekStart [0..<7];
             pushed = emitWeek weekBlock weekDays instructionalWeekCounter
         in fst pushed
            @ weeksLoop zone start finish blockedDates blockedWeeks (addDays weekStart 7)
                (rawWeekCounter + 1) (snd pushed))
      else [])"
  by pat_completeness auto
termination
  by (relation "measure (\<lambda>(zone, start, finish, bds, bws, weekStart, raw, cnt). nat (finish - weekStart))")
     (auto simp: isBefore_def addDays_def dayMs_def)

declare weeksLoop.simps [simp del]

definition generateEmptyWeeks ::
  "int \<Rightarrow> jsdate \<Rightarrow> jsdate \<Rightarrow> BlockedDate list \<Rightarrow> BlockedWeek list \<Rightarrow> WeekPlan list" where
  "generateEmptyWeeks zone start end blockedDates blockedWeeks =
     (case (start, end) of
        (Some s, Some e) \<Rightarrow>
          weeksLoop zone s (endOfDay e) blockedDates blockedWeeks (alignSunday (startOfDay s)) 1 1
      | _ \<Rightarrow> [])"

section \<open>distributeLessons\<close>

text \<open>\<open>Number(pacing) || 1\<close>: NaN and zero are falsy.\<close>

definition pacingOr1 :: "jsnumber \<Rightarrow> jsnumber" where
  "pacingOr1 p = (case p of NaN \<Rightarrow> Num 1 | Num r \<Rightarrow> (if r = 0 then Num 1 else Num r)
                  | PosInf \<Rightarrow> PosInf | NegInf \<Rightarrow> NegInf)"

text \<open>\<open>counter >= x\<close> for a counter that is a natural number.\<close>

definition js_ge :: "nat \<Rightarrow> jsnumber \<Rightarrow> bool" where
  "js_ge n x = (case x of NaN \<Rightarrow> False | Num r \<Rightarrow> r \<le> of_nat n
                | PosInf \<Rightarrow> False | NegInf \<Rightarrow> True)"

text \<open>
  The body of the inner loop on one day.  The state is the pair
  \<open>(lessonIdx, dayInLessonCounter)\<close>; the result is the day as left by the body and
  the state after it.
\<close>

definition distributeDay :: "Lesson list \<Rightarrow> nat \<times> nat \<Rightarrow> DayPlan \<Rightarrow> DayPlan \<times> nat \<times> nat" where
  "distributeDay lessons st day0 =
     (let lessonIdx = fst st;
          dayInLessonCounter = snd st;
          day = day0\<lparr>lessonId := None, lessonName := None\<rparr>
      in if isBlocked day then (day, lessonIdx, dayInLessonCounter)
         else if lessonIdx \<ge> length lessons then (day, lessonIdx, dayInLessonCounter)
         else
           let currentLesson = lessons ! lessonIdx;
               day' = day\<lparr>lessonId := Some (lesson_id currentLesson),
                          lessonName := Some (lesson_name currentLesson)\<rparr>;
               counted = dayInLessonCounter + 1
           in if js_ge counted (pacingOr1 (pacing currentLesson))
              then (day', lessonIdx + 1, 0)
              else (day', lessonIdx, counted))"

fun distributeDays :: "Lesson list \<Rightarrow> nat \<times> nat \<Rightarrow> DayPlan list \<Rightarrow> DayPlan list \<times> nat \<times> nat" where
  "distributeDays lessons st [] = ([], st)"
| "distributeDays lessons st (day # rest) =
     (let (day', st') = distributeDay lessons st day;
          (rest', st'') = distributeDays lessons st' rest
      in (day' # rest', st''))"

fun distributeWeeks :: "Lesson list \<Rightarrow> nat \<times> nat \<Rightarrow> WeekPlan list \<Rightarrow> WeekPlan list \<times> nat \<times> nat" where
  "distributeWeeks lessons st [] = ([], st)"
| "distributeWeeks lessons st (week # rest) =
     (let (ds, st') = distributeDays lessons st (days week);
          (rest', st'') = distributeWeeks lessons st' rest
      in (week\<lparr>days := ds\<rparr> # rest', st''))"

text \<open>
  \<open>JSON.parse(JSON.stringify(weeks))\<close> rebuilds the same value from its text; on
  values it is the identity.
\<close>

definition jsonClone :: "WeekPlan list \<Rightarrow> WeekPlan list" where
  "jsonClone weeks = weeks"

definition distributeLessons :: "WeekPlan list \<Rightarrow> Lesson list \<Rightarrow> WeekPlan list" where
  "distributeLessons weeks lessons = fst (distributeWeeks lessons (0, 0) (jsonClone weeks))"

section \<open>Calendar days and raw weeks\<close>

text \<open>
  The calendar day of an instant, the Sunday on or before the day of \<open>start\<close> (the loops'
  aligned first \<open>weekStart\<close>), and the Sunday that opens raw week \<open>j\<close> (1-based).
\<close>

definition dayOf :: "instant \<Rightarrow> int" where
  "dayOf t = t div dayMs"

definition firstSunday :: "instant \<Rightarrow> int" where
  "firstSunday start = dayOf start - (dayOf start + 4) mod 7"

definition sundayOfWeek :: "instant \<Rightarrow> int \<Rightarrow> int" where
  "sundayOfWeek start j = firstSunday start + 7 * (j - 1)"

definition inRange :: "instant \<Rightarrow> instant \<Rightarrow> int \<Rightarrow> bool" where
  "inRange start end d = (dayOf start \<le> d \<and> d \<le> dayOf end)"

definition schoolDay :: "int \<Rightarrow> bool" where
  "schoolDay d = ((d + 4) mod 7 \<in> set SCHOOL_DAYS)"

text \<open>
  The date of a day-level exclusion, as \<open>parseISOIfNeeded\<close> reads it, falls on the local
  calendar day of instant \<open>t\<close>.
\<close>

definition sameDate :: "int \<Rightarrow> BlockedDate \<Rightarrow> instant \<Rightarrow> bool" where
  "sameDate zone bd t =
     (case parseISOIfNeeded zone (bd_date bd) of None \<Rightarrow> False | Some d \<Rightarrow> dayOf d = dayOf t)"

text \<open>The Day Plan that the inner loop pushes for calendar day \<open>d\<close>.\<close>

definition dayPlanAt :: "int \<Rightarrow> BlockedDate list \<Rightarrow> BlockedWeek option \<Rightarrow> int \<Rightarrow> DayPlan" where
  "dayPlanAt zone blockedDates weekBlock d =
     \<lparr>date = d * dayMs,
      dayName = format_EEEE (d * dayMs),
      isBlocked = (weekBlock \<noteq> None \<or> findDateBlock zone blockedDates d \<noteq> None),
      blockLabel = js_or (map_option bw_label weekBlock)
                         (map_option bd_label (findDateBlock zone blockedDates d)),
      lessonId = None,
      lessonName = None\<rparr>"

definition weekDaysOf ::
  "int \<Rightarrow> instant \<Rightarrow> instant \<Rightarrow> BlockedDate list \<Rightarrow> BlockedWeek option \<Rightarrow> int \<Rightarrow> DayPlan list" where
  "weekDaysOf zone start end blockedDates weekBlock j =
     map (dayPlanAt zone blockedDates weekBlock)
       (filter (inRange start end) [sundayOfWeek start j .. sundayOfWeek start j + 4])"

text \<open>The outer loop, read as a pass over the raw week indices still to visit.\<close>

fun numberWeeks ::
  "int \<Rightarrow> instant \<Rightarrow> instant \<Rightarrow> BlockedDate list \<Rightarrow> BlockedWeek list \<Rightarrow> int list \<Rightarrow> nat
     \<Rightarrow> WeekPlan list" where
  "numberWeeks zone start end blockedDates blockedWeeks [] cnt = []"
| "numberWeeks zone start end blockedDates blockedWeeks (j # js) cnt =
     (let weekBlock = find (\<lambda>bw. bw_weekNumber bw = j) blockedWeeks;
          pushed = emitWeek weekBlock (weekDaysOf zone start end blockedDates weekBlock j) cnt
      in fst pushed @ numberWeeks zone start end blockedDates blockedWeeks js (snd pushed))"

text \<open>The raw week index of an emitted Week Plan: the raw week of its first day.\<close>

definition rawWeekOf :: "instant \<Rightarrow> WeekPlan \<Rightarrow> int" where
  "rawWeekOf start wp = getWeekNum start (date (hd (days wp)))"

text \<open>
  Calendar day \<open>d\<close> is excluded: a week-level exclusion names its raw week, or a
  day-level exclusion names its date.
\<close>

definition excludedDay :: "int \<Rightarrow> instant \<Rightarrow> BlockedDate list \<Rightarrow> BlockedWeek list \<Rightarrow> int \<Rightarrow> bool" where
  "excludedDay zone start blockedDates blockedWeeks d =
     (find (\<lambda>bw. bw_weekNumber bw = (d - firstSunday start) div 7 + 1) blockedWeeks \<noteq> None
      \<or> findDateBlock zone blockedDates d \<noteq> None)"

section \<open>Reading a packed plan\<close>

text \<open>
  The chronological stream of Day Plans, the number of unblocked days in it, and the
  number of days that carry a given lesson id.
\<close>

definition allDays :: "WeekPlan list \<Rightarrow> DayPlan list" where
  "allDays weeks = concat (map days weeks)"

definition unblockedDays :: "WeekPlan list \<Rightarrow> nat" where
  "unblockedDays weeks = length (filter (\<lambda>d. \<not> isBlocked d) (allDays weeks))"

definition assignedDays :: "string \<Rightarrow> WeekPlan list \<Rightarrow> nat" where
  "assignedDays x weeks = length (filter (\<lambda>d. lessonId d = Some x) (allDays weeks))"

text \<open>A pacing value that is a whole number of days, read as that number.\<close>

definition pacingDays :: "Lesson \<Rightarrow> nat" where
  "pacingDays l = (case pacing l of Num r \<Rightarrow> nat \<lfloor>r\<rfloor> | _ \<Rightarrow> 0)"

text \<open>
  The number of unblocked days after which \<open>dayInLessonCounter >= (Number(pacing) || 1)\<close>
  first holds; \<open>None\<close> when it never does.
\<close>

definition daysNeeded :: "jsnumber \<Rightarrow> nat option" where
  "daysNeeded p =
     (case p of
        NaN \<Rightarrow> Some 1
      | Num r \<Rightarrow> Some (if r = 0 then 1 else max 1 (nat \<lceil>r\<rceil>))
      | PosInf \<Rightarrow> None
      | NegInf \<Rightarrow> Some 1)"

text \<open>Pacing that is zero, negative, below 1, or not a number.\<close>

definition degeneratePacing :: "jsnumber \<Rightarrow> bool" where
  "degeneratePacing p = (case p of NaN \<Rightarrow> True | Num r \<Rightarrow> r < 1 | PosInf \<Rightarrow> False | NegInf \<Rightarrow> True)"

text \<open>
  The lesson ids that the packer writes, day by day, when the lessons from the cursor
  on are \<open>ls\<close> and the counter is \<open>counter\<close>.
\<close>

fun packIds :: "Lesson list \<Rightarrow> nat \<Rightarrow> DayPlan list \<Rightarrow> string option list" where
  "packIds ls counter [] = []"
| "packIds ls counter (d # ds) =
     (if isBlocked d then None # packIds ls counter ds
      else case ls of
        [] \<Rightarrow> None # packIds [] counter ds
      | l # rest \<Rightarrow>
          Some (lesson_id l)
            # (if js_ge (counter + 1) (pacingOr1 (pacing l)) then packIds rest 0 ds
               else packIds (l # rest) (counter + 1) ds))"

section \<open>distributeLessons on a store\<close>

text \<open>
  To speak about mutation and aliasing, the same function is modelled once more on a
  store of JavaScript objects.  Objects of the four kinds the function meets (the
  \<open>weeks\<close> array, Week Plan objects, \<open>days\<close> arrays, Day Plan objects) live in four
  tables; a reference is an index into the table of its kind, and allocation appends to
  the table.  Two Week Plans may share a \<open>days\<close> array, and two arrays may share a Day
  Plan object.  A read through a dangling reference is \<open>None\<close> (a TypeError in the
  source).
\<close>

type_synonym ref = nat

record WeekObject =
  wo_weekNumber :: "nat option"
  wo_displayWeekLabel :: string
  wo_dates :: "int \<times> int"
  wo_days :: ref
  wo_isBlocked :: bool
  wo_blockLabel :: "string option"

record store =
  weekArrays :: "ref list list"
  weekObjects :: "WeekObject list"
  dayArrays :: "ref list list"
  dayObjects :: "DayPlan list"

definition deref :: "'a list \<Rightarrow> ref \<Rightarrow> 'a option" where
  "deref table r = (if r < length table then Some (table ! r) else None)"

text \<open>The value of the structure behind a reference: what \<open>JSON.stringify\<close> writes out.\<close>

definition readDays :: "store \<Rightarrow> ref \<Rightarrow> DayPlan list option" where
  "readDays h a =
     (case deref (dayArrays h) a of
        None \<Rightarrow> None
      | Some rs \<Rightarrow> those (map (deref (dayObjects h)) rs))"

definition readWeek :: "store \<Rightarrow> ref \<Rightarrow> WeekPlan option" where
  "readWeek h r =
     (case deref (weekObjects h) r of
        None \<Rightarrow> None
      | Some w \<Rightarrow>
          (case readDays h (wo_days w) of
             None \<Rightarrow> None
           | Some ds \<Rightarrow>
               Some \<lparr>weekNumber = wo_weekNumber w,
                     displayWeekLabel = wo_displayWeekLabel w,
                     dates = wo_dates w,
                     days = ds,
                     wk_isBlocked = wo_isBlocked w,
                     wk_blockLabel = wo_blockLabel w\<rparr>))"

definition readWeeks :: "store \<Rightarrow> ref \<Rightarrow> WeekPlan list option" where
  "readWeeks h r =
     (case deref (weekArrays h) r of
        None \<Rightarrow> None
      | Some rs \<Rightarrow> those (map (readWeek h) rs))"

text \<open>\<open>JSON.parse\<close> builds the value anew: one fresh object for every part of it.\<close>

definition allocWeek :: "store \<Rightarrow> WeekPlan \<Rightarrow> store \<times> ref" where
  "allocWeek h w =
     (let first = length (dayObjects h);
          dayRefs = [first ..< first + length (days w)];
          arr = length (dayArrays h);
          obj = \<lparr>wo_weekNumber = weekNumber w,
                 wo_displayWeekLabel = displayWeekLabel w,
                 wo_dates = dates w,
                 wo_days = arr,
                 wo_isBlocked = wk_isBlocked w,
                 wo_blockLabel = wk_blockLabel w\<rparr>
      in (h\<lparr>dayObjects := dayObjects h @ days w,
             dayArrays := dayArrays h @ [dayRefs],
             weekObjects := weekObjects h @ [obj]\<rparr>,
          length (weekObjects h)))"

fun allocWeeks :: "store \<Rightarrow> WeekPlan list \<Rightarrow> store \<times> ref list" where
  "allocWeeks h [] = (h, [])"
| "allocWeeks h (w # ws) =
     (let (h1, r) = allocWeek h w;
          (h2, rs) = allocWeeks h1 ws
      in (h2, r # rs))"

definition jsonParse :: "store \<Rightarrow> WeekPlan list \<Rightarrow> store \<times> ref" where
  "jsonParse h ws =
     (let (h1, rs) = allocWeeks h ws
      in (h1\<lparr>weekArrays := weekArrays h1 @ [rs]\<rparr>, length (weekArrays h1)))"

text \<open>
  The loop body and the two loops, working in place on the Day Plan object behind \<open>r\<close>.
  Reading \<open>lessons[lessonIdx]\<close> beyond the list gives \<open>undefined\<close>, whose \<open>id\<close> cannot be
  read: \<open>None\<close> again.
\<close>

definition packDay :: "Lesson list \<Rightarrow> store \<times> nat \<times> nat \<Rightarrow> ref \<Rightarrow> (store \<times> nat \<times> nat) option" where
  "packDay lessons hs r =
     (let h = fst hs; lessonIdx = fst (snd hs); dayInLessonCounter = snd (snd hs) in
      case deref (dayObjects h) r of
        None \<Rightarrow> None
      | Some day0 \<Rightarrow>
          (let day = day0\<lparr>lessonId := None, lessonName := None\<rparr>;
               h1 = h\<lparr>dayObjects := (dayObjects h)[r := day]\<rparr>
           in if isBlocked day then Some (h1, lessonIdx, dayInLessonCounter)
              else if lessonIdx \<ge> length lessons then Some (h1, lessonIdx, dayInLessonCounter)
              else
                case deref lessons lessonIdx of
                  None \<Rightarrow> None
                | Some currentLesson \<Rightarrow>
                    (let day' = day\<lparr>lessonId := Some (lesson_id currentLesson),
                                   lessonName := Some (lesson_name currentLesson)\<rparr>;
                         h2 = h1\<lparr>dayObjects := (dayObjects h1)[r := day']\<rparr>;
                         counted = dayInLessonCounter + 1
                     in if js_ge counted (pacingOr1 (pacing currentLesson))
                        then Some (h2, lessonIdx + 1, 0)
                        else Some (h2, lessonIdx, counted))))"

fun packDays :: "Lesson list \<Rightarrow> store \<times> nat \<times> nat \<Rightarrow> ref list \<Rightarrow> (store \<times> nat \<times> nat) option" where
  "packDays lessons hs [] = Some hs"
| "packDays lessons hs (r # rs) =
     (case packDay lessons hs r of
        None \<Rightarrow> None
      | Some hs' \<Rightarrow> packDays lessons hs' rs)"

definition packWeek :: "Lesson list \<Rightarrow> store \<times> nat \<times> nat \<Rightarrow> ref \<Rightarrow> (store \<times> nat \<times> nat) option" where
  "packWeek lessons hs r =
     (case deref (weekObjects (fst hs)) r of
        None \<Rightarrow> None
      | Some w \<Rightarrow>
          (case deref (dayArrays (fst hs)) (wo_days w) of
             None \<Rightarrow> None
           | Some dayRefs \<Rightarrow> packDays lessons hs dayRefs))"

fun packWeeks :: "Lesson list \<Rightarrow> store \<times> nat \<times> nat \<Rightarrow> ref list \<Rightarrow> (store \<times> nat \<times> nat) option" where
  "packWeeks lessons hs [] = Some hs"
| "packWeeks lessons hs (r # rs) =
     (case packWeek lessons hs r of
        None \<Rightarrow> None
      | Some hs' \<Rightarrow> packWeeks lessons hs' rs)"

text \<open>
  \<open>distributeLessons(weeks, lessons)\<close> on the store: \<open>weeks\<close> is a reference, and so is
  the result.
\<close>

definition distributeLessonsOn :: "Lesson list \<Rightarrow> store \<Rightarrow> ref \<Rightarrow> (store \<times> ref) option" where
  "distributeLessonsOn lessons h weeks =
     (case readWeeks h weeks of
        None \<Rightarrow> None
      | Some ws \<Rightarrow>
          (let (h1, updatedWeeks) = jsonParse h ws
           in case deref (weekArrays h1) updatedWeeks of
                None \<Rightarrow> None
              | Some weekRefs \<Rightarrow>
                  (case packWeeks lessons (h1, 0, 0) weekRefs of
                     None \<Rightarrow> None
                   | Some (h2, st) \<Rightarrow> Some (h2, updatedWeeks))))"

text \<open>
  Week \<open>w\<close> of \<open>ws\<close> sits behind reference \<open>r\<close> of \<open>rs\<close> in \<open>h\<close>, its days in the Day
  Plan objects from index \<open>n\<close> on, week after week; and none of these objects is an
  object of the store \<open>h0\<close>.
\<close>

fun laidOut :: "store \<Rightarrow> store \<Rightarrow> nat \<Rightarrow> WeekPlan list \<Rightarrow> ref list \<Rightarrow> bool" where
  "laidOut h0 h n [] [] = True"
| "laidOut h0 h n (w # ws) (r # rs) =
     (length (weekObjects h0) \<le> r \<and> r < length (weekObjects h)
      \<and> length (dayArrays h0) \<le> wo_days (weekObjects h ! r)
      \<and> wo_days (weekObjects h ! r) < length (dayArrays h)
      \<and> dayArrays h ! wo_days (weekObjects h ! r) = [n ..< n + length (days w)]
      \<and> length (dayObjects h0) \<le> n
      \<and> wo_weekNumber (weekObjects h ! r) = weekNumber w
      \<and> wo_displayWeekLabel (weekObjects h ! r) = displayWeekLabel w
      \<and> wo_dates (weekObjects h ! r) = dates w
      \<and> wo_isBlocked (weekObjects h ! r) = wk_isBlocked w
      \<and> wo_blockLabel (weekObjects h ! r) = wk_blockLabel w
      \<and> laidOut h0 h (n + length (days w)) ws rs)"
| "laidOut h0 h n [] (r # rs) = False"
| "laidOut h0 h n (w # ws) [] = False"

text \<open>
  Every object of the structure behind \<open>r\<close> in \<open>h'\<close> lies beyond the tables of \<open>h\<close>: it
  was allocated after \<open>h\<close>, and no reference held in \<open>h\<close> points to it.
\<close>

definition allocatedSince :: "store \<Rightarrow> store \<Rightarrow> ref \<Rightarrow> bool" where
  "allocatedSince h h' r =
     (length (weekArrays h) \<le> r
      \<and> list_all (\<lambda>wr.
           length (weekObjects h) \<le> wr
           \<and> length (dayArrays h) \<le> wo_days (weekObjects h' ! wr)
           \<and> list_all (\<lambda>dr. length (dayObjects h) \<le> dr)
                (dayArrays h' ! wo_days (weekObjects h' ! wr)))
         (weekArrays h' ! r))"

text \<open>Every object of \<open>h\<close> is still there in \<open>h'\<close>, unchanged.\<close>

definition unchangedIn :: "store \<Rightarrow> store \<Rightarrow> bool" where
  "unchangedIn h h' =
     (take (length (weekArrays h)) (weekArrays h') = weekArrays h
      \<and> take (length (weekObjects h)) (weekObjects h') = weekObjects h
      \<and> take (length (dayArrays h)) (dayArrays h') = dayArrays h
      \<and> take (length (dayObjects h)) (dayObjects h') = dayObjects h)"

section \<open>Sample data\<close>

definition exDay :: "int \<Rightarrow> bool \<Rightarrow> DayPlan" where
  "exDay n b = \<lparr>date = n * dayMs, dayName = format_EEEE (n * dayMs), isBlocked = b,
     blockLabel = (if b then Some ''Exam'' else None), lessonId = Some ''stale'', lessonName = Some ''Stale''\<rparr>"

definition exWeek :: "DayPlan list \<Rightarrow> WeekPlan" where
  "exWeek ds = \<lparr>weekNumber = Some 1, displayWeekLabel = ''Week 1'', dates = (19967, 19971),
     days = ds, wk_isBlocked = False, wk_blockLabel = None\<rparr>"

definition exLesson :: "string \<Rightarrow> jsnumber \<Rightarrow> Lesson" where
  "exLesson i p = \<lparr>lesson_id = i, lesson_name = ''Lesson '' @ i, ccss = ''CCSS'', pacing = p\<rparr>"

text \<open>The zone of UTC, and a zone five hours west of it.\<close>

definition zoneUTC :: int where
  "zoneUTC = 0"

definition zoneWest :: int where
  "zoneWest = - 18000000"

text \<open>
  Thursday 5 September 2024 at 00:00, and a day-level exclusion with the text
  \<open>2024-09-05\<close>.
\<close>

definition thursdayAfter :: instant where
  "thursdayAfter = 19971 * dayMs"

definition examOnFifth :: BlockedDate where
  "examOnFifth = \<lparr>bd_date = DateOnlyText 19971, bd_label = ''Exam'', bd_type = Exam\<rparr>"

text \<open>
  A range from Wednesday 4 September 2024, 08:00, to Monday 16 September 2024 (day
  19967 is Sunday 1 September 2024): raw week 1 keeps Wednesday and Thursday, raw week 2
  is whole, raw week 3 keeps Sunday and Monday.
\<close>

definition sampleStart :: instant where
  "sampleStart = 19970 * dayMs + 28800000"

definition sampleEnd :: instant where
  "sampleEnd = 19982 * dayMs"

text \<open>Two day-level exclusions: an unreadable text, and the text \<open>2024-09-05\<close>.\<close>

definition sampleDates :: "BlockedDate list" where
  "sampleDates =
     [\<lparr>bd_date = OtherText, bd_label = ''Unreadable'', bd_type = Event\<rparr>,
      \<lparr>bd_date = DateOnlyText 19971, bd_label = ''Exam'', bd_type = Exam\<rparr>]"

definition sampleWeeks :: "BlockedWeek list" where
  "sampleWeeks =
     [\<lparr>bw_weekNumber = 2, bw_label = ''Break'', bw_type = Holiday, excludeFromCount = True\<rparr>]"

definition twiceWeeks :: "BlockedWeek list" where
  "twiceWeeks =
     [\<lparr>bw_weekNumber = 2, bw_label = ''Revision'', bw_type = Revision, excludeFromCount = False\<rparr>,
      \<lparr>bw_weekNumber = 2, bw_label = ''Break'', bw_type = Holiday, excludeFromCount = True\<rparr>]"


text \<open>Friday 6 September 2024, 08:00.\<close>

definition fridayStart :: instant where
  "fridayStart = 19972 * dayMs + 28800000"

text \<open>Monday 2 September 2024 and Wednesday 4 September 2024, both at 00:00.\<close>

definition mondayBefore :: instant where
  "mondayBefore = 19968 * dayMs"

definition sameMorning :: instant where
  "sameMorning = 19970 * dayMs"

text \<open>Lessons with whole pacing, and lessons with pacing that is not a positive number.\<close>

definition wholeLessons :: "Lesson list" where
  "wholeLessons = [exLesson ''a'' (Num 2), exLesson ''b'' (Num 3), exLesson ''c'' (Num 1)]"

definition oddLessons :: "Lesson list" where
  "oddLessons =
     [exLesson ''a'' (Num 2), exLesson ''z'' NaN, exLesson ''n'' (Num (- 3)),
      exLesson ''h'' (Num (1 / 2)), exLesson ''o'' (Num 0), exLesson ''u'' PosInf]"

text \<open>
  A store in which the two Week Plans of the \<open>weeks\<close> array share one \<open>days\<close> array, and
  that array names its first Day Plan object twice.
\<close>

definition sharedStore :: store where
  "sharedStore =
     \<lparr>weekArrays = [[0, 1]],
      weekObjects =
        [\<lparr>wo_weekNumber = Some 1, wo_displayWeekLabel = ''Week 1'', wo_dates = (19967, 19968),
           wo_days = 0, wo_isBlocked = False, wo_blockLabel = None\<rparr>,
         \<lparr>wo_weekNumber = Some 2, wo_displayWeekLabel = ''Week 2'', wo_dates = (19967, 19968),
           wo_days = 0, wo_isBlocked = False, wo_blockLabel = None\<rparr>],
      dayArrays = [[0, 1, 0]],
      dayObjects = [exDay 19967 False, exDay 19968 True]\<rparr>"

section \<open>Facts about dates\<close>

lemma dayMs_pos: "0 < dayMs"
  by (simp add: dayMs_def)

lemma dayOf_mult [simp]: "dayOf (d * dayMs) = d"
  using dayMs_pos by (simp add: dayOf_def)

lemma dayOf_startOfDay [simp]: "dayOf (startOfDay t) = dayOf t"
  using dayMs_pos by (simp add: dayOf_def startOfDay_def)

lemma startOfDay_dayOf: "startOfDay t = dayOf t * dayMs"
  by (simp add: dayOf_def startOfDay_def)

lemma dayOf_endOfDay [simp]: "dayOf (endOfDay t) = dayOf t"
proof -
  have "(t div dayMs * dayMs + (dayMs - 1)) div dayMs = t div dayMs + (dayMs - 1) div dayMs"
    using dayMs_pos by (simp add: add.commute)
  also have "(dayMs - 1) div dayMs = 0"
    using dayMs_pos by simp
  finally show ?thesis by (simp add: dayOf_def endOfDay_def)
qed

lemma dayOf_mono: "s \<le> e \<Longrightarrow> dayOf s \<le> dayOf e"
  unfolding dayOf_def using dayMs_pos by (simp add: zdiv_mono1)

lemma addDays_mult: "addDays (d * dayMs) n = (d + n) * dayMs"
  by (simp add: addDays_def algebra_simps)

lemma getDay_mult: "getDay (d * dayMs) = (d + 4) mod 7"
  using dayOf_mult [of d] by (simp add: getDay_def dayOf_def)

lemma mult_dayMs_less: "a * dayMs < b * dayMs \<longleftrightarrow> a < b"
  using dayMs_pos by simp

lemma isAfter_endOfDay: "isAfter (d * dayMs) (endOfDay e) \<longleftrightarrow> dayOf e < d"
proof -
  have "dayOf e * dayMs + (dayMs - 1) < d * dayMs \<longleftrightarrow> dayOf e < d"
  proof
    assume "dayOf e * dayMs + (dayMs - 1) < d * dayMs"
    then have "dayOf e * dayMs < d * dayMs" using dayMs_pos by linarith
    then show "dayOf e < d" by (simp add: mult_dayMs_less)
  next
    assume "dayOf e < d"
    then have "dayOf e + 1 \<le> d" by simp
    then have "(dayOf e + 1) * dayMs \<le> d * dayMs" using dayMs_pos by simp
    then show "dayOf e * dayMs + (dayMs - 1) < d * dayMs" by (simp add: algebra_simps)
  qed
  then show ?thesis by (simp add: isAfter_def endOfDay_def dayOf_def)
qed

lemma isBefore_endOfDay: "isBefore (d * dayMs) (endOfDay e) \<longleftrightarrow> d \<le> dayOf e"
proof -
  have "d * dayMs < dayOf e * dayMs + (dayMs - 1) \<longleftrightarrow> d \<le> dayOf e"
  proof
    assume a: "d * dayMs < dayOf e * dayMs + (dayMs - 1)"
    show "d \<le> dayOf e"
    proof (rule ccontr)
      assume "\<not> d \<le> dayOf e"
      then have "dayOf e + 1 \<le> d" by simp
      then have "(dayOf e + 1) * dayMs \<le> d * dayMs" using dayMs_pos by simp
      with a show False by (simp add: algebra_simps)
    qed
  next
    assume "d \<le> dayOf e"
    then have "d * dayMs \<le> dayOf e * dayMs" using dayMs_pos by simp
    moreover have "1 < dayMs" by (simp add: dayMs_def)
    ultimately show "d * dayMs < dayOf e * dayMs + (dayMs - 1)" by linarith
  qed
  then show ?thesis by (simp add: isBefore_def endOfDay_def dayOf_def)
qed

lemma isBefore_startOfDay: "isBefore (d * dayMs) (startOfDay s) \<longleftrightarrow> d < dayOf s"
  by (simp add: isBefore_def startOfDay_dayOf mult_dayMs_less)

lemma mod7_pred: "(x::int) mod 7 \<noteq> 0 \<Longrightarrow> (x - 1) mod 7 = x mod 7 - 1"
proof -
  assume "x mod 7 \<noteq> 0"
  moreover have "0 \<le> x mod 7" "x mod 7 < 7" by simp_all
  ultimately have "0 \<le> x mod 7 - 1" "x mod 7 - 1 < 7" by linarith+
  then have "(x mod 7 - 1) mod 7 = x mod 7 - 1" by simp
  moreover have "(x - 1) mod 7 = (x mod 7 - 1) mod 7" by (simp add: mod_diff_left_eq)
  ultimately show ?thesis by simp
qed

lemma alignSunday_mult: "alignSunday (d * dayMs) = (d - (d + 4) mod 7) * dayMs"
proof (induction "nat ((d + 4) mod 7)" arbitrary: d)
  case 0
  then have "(d + 4) mod 7 = 0" by simp
  then show ?case by (subst alignSunday.simps) (simp add: getDay_mult)
next
  case (Suc n)
  then have pos: "(d + 4) mod 7 \<noteq> 0" by auto
  have step: "alignSunday (d * dayMs) = alignSunday ((d - 1) * dayMs)"
    using pos by (subst alignSunday.simps) (simp add: getDay_mult addDays_mult)
  have pred: "(d - 1 + 4) mod 7 = (d + 4) mod 7 - 1"
    using mod7_pred [OF pos] by (simp add: algebra_simps)
  with Suc.hyps(2) have "n = nat ((d - 1 + 4) mod 7)" by linarith
  then have "alignSunday ((d - 1) * dayMs) = (d - 1 - (d - 1 + 4) mod 7) * dayMs"
    by (rule Suc.hyps(1))
  moreover have "d - 1 - (d - 1 + 4) mod 7 = d - (d + 4) mod 7" using pred by linarith
  ultimately show ?case using step by simp
qed

lemma alignSunday_start: "alignSunday (startOfDay s) = firstSunday s * dayMs"
  by (simp add: startOfDay_dayOf alignSunday_mult firstSunday_def)

lemma firstSunday_is_sunday: "(firstSunday s + 4) mod 7 = 0"
proof -
  have "firstSunday s + 4 = (dayOf s + 4) - (dayOf s + 4) mod 7"
    by (simp add: firstSunday_def)
  also have "\<dots> = 7 * ((dayOf s + 4) div 7)"
    by (simp add: minus_mod_eq_mult_div)
  finally show ?thesis by simp
qed

lemma firstSunday_bounds: "firstSunday s \<le> dayOf s \<and> dayOf s < firstSunday s + 7"
proof -
  have "0 \<le> (dayOf s + 4) mod 7" "(dayOf s + 4) mod 7 < 7" by simp_all
  then show ?thesis unfolding firstSunday_def by linarith
qed

lemma sundayOfWeek_is_sunday: "(sundayOfWeek s j + 4) mod 7 = 0"
proof -
  have "sundayOfWeek s j + 4 = (firstSunday s + 4) + 7 * (j - 1)"
    by (simp add: sundayOfWeek_def)
  then have "(sundayOfWeek s j + 4) mod 7 = (firstSunday s + 4) mod 7"
    by (simp only: mod_mult_self2)
  then show ?thesis by (simp add: firstSunday_is_sunday)
qed

lemma sundayOfWeek_Suc: "sundayOfWeek s (j + 1) = sundayOfWeek s j + 7"
  by (simp add: sundayOfWeek_def)

lemma sundayOfWeek_1: "sundayOfWeek s 1 = firstSunday s"
  by (simp add: sundayOfWeek_def)

lemma getWeekNum_dayOf: "getWeekNum s t = (dayOf t - firstSunday s) div 7 + 1"
  by (simp add: getWeekNum_def differenceInCalendarDays_def alignSunday_start
      flip: dayOf_def)

lemma week_div:
  assumes "w + 7 * k \<le> (t::int)" "t \<le> w + 7 * k + 6"
  shows "(t - w) div 7 = k"
proof -
  define r where "r = t - w - 7 * k"
  have r: "0 \<le> r" "r < 7" using assms by (simp_all add: r_def)
  have "t - w = r + k * 7" by (simp add: r_def)
  then have "(t - w) div 7 = k + r div 7" by (simp only: div_mult_self1)
  with r show ?thesis by simp
qed

lemma getWeekNum_in_week:
  assumes "sundayOfWeek s j \<le> dayOf t" "dayOf t \<le> sundayOfWeek s j + 6"
  shows "getWeekNum s t = j"
  using week_div [of "firstSunday s" "j - 1" "dayOf t"] assms
  unfolding getWeekNum_dayOf sundayOfWeek_def by simp

section \<open>The loops of generateEmptyWeeks and getWeekDateRanges, in closed form\<close>

lemma weekday_offset:
  assumes "(w + 4) mod 7 = 0" "0 \<le> k" "k < 7"
  shows "(w + k + 4) mod 7 = (k::int)"
proof -
  have "(w + k + 4) mod 7 = ((w + 4) + k) mod 7" by (simp add: algebra_simps)
  also have "\<dots> = ((w + 4) mod 7 + k) mod 7" by (simp only: mod_add_left_eq)
  also have "\<dots> = k" using assms by simp
  finally show ?thesis .
qed

lemma school_days_iff: "k \<in> set SCHOOL_DAYS \<longleftrightarrow> 0 \<le> k \<and> k \<le> 4"
  unfolding SCHOOL_DAYS_def by auto

lemma filter_inRange_after: "dayOf e < lo \<Longrightarrow> filter (inRange s e) [lo..j] = []"
  by (auto simp: filter_empty_conv inRange_def)

lemma dayLoop_step:
  "dayLoop zone s (endOfDay e) bds wb (w * dayMs) (i # rest) =
     (if dayOf e < w + int i then []
      else if w + int i < dayOf s then dayLoop zone s (endOfDay e) bds wb (w * dayMs) rest
      else (if (w + int i + 4) mod 7 \<in> set SCHOOL_DAYS then [dayPlanAt zone bds wb (w + int i)] else [])
           @ (if (w + int i + 4) mod 7 = 4 then []
              else dayLoop zone s (endOfDay e) bds wb (w * dayMs) rest))"
  using dayOf_mult [of "w + int i"]
  by (simp add: addDays_mult isAfter_endOfDay isBefore_startOfDay getDay_mult Let_def
      dayPlanAt_def format_yyyy_MM_dd_def dayOf_def)

lemma dayLoop_closed:
  assumes sun: "(w + 4) mod 7 = 0" and "i \<le> 7"
  shows "dayLoop zone s (endOfDay e) bds wb (w * dayMs) [i..<7] =
     map (dayPlanAt zone bds wb) (filter (inRange s e) [w + int i .. w + 4])"
  using \<open>i \<le> 7\<close>
proof (induction "7 - i" arbitrary: i)
  case 0
  then have "i = 7" by simp
  then show ?case by simp
next
  case (Suc k)
  then have i: "i < 7" by simp
  then have upt: "[i..<7] = i # [Suc i..<7]" by (simp add: upt_conv_Cons)
  have wd: "(w + int i + 4) mod 7 = int i"
    using weekday_offset [OF sun, of "int i"] i by simp
  have IH: "dayLoop zone s (endOfDay e) bds wb (w * dayMs) [Suc i..<7] =
     map (dayPlanAt zone bds wb) (filter (inRange s e) [w + int i + 1 .. w + 4])"
    using Suc.hyps(1) [of "Suc i"] Suc.hyps(2) i by (simp add: algebra_simps)
  show ?case
  proof (cases "dayOf e < w + int i")
    case True
    then show ?thesis by (simp del: dayLoop.simps add: upt dayLoop_step filter_inRange_after)
  next
    case inside: False
    show ?thesis
    proof (cases "w + int i < dayOf s")
      case True
      then have "filter (inRange s e) [w + int i .. w + 4]
          = filter (inRange s e) [w + int i + 1 .. w + 4]"
        by (cases "w + int i \<le> w + 4") (simp_all add: upto_rec1 inRange_def)
      with True inside show ?thesis by (simp del: dayLoop.simps add: upt dayLoop_step IH)
    next
      case False
      with inside have rng: "inRange s e (w + int i)" by (simp add: inRange_def)
      consider "i < 4" | "i = 4" | "4 < i" by linarith
      then show ?thesis
      proof cases
        case 1
        then have "[w + int i .. w + 4] = (w + int i) # [w + int i + 1 .. w + 4]"
          by (simp add: upto_rec1)
        with 1 False inside rng show ?thesis
          by (simp del: dayLoop.simps add: upt dayLoop_step IH wd school_days_iff)
      next
        case 2
        have thu: "(w + int i + 4) mod 7 = 4" using wd 2 by simp
        have one: "[w + int i .. w + 4] = [w + int i]" using 2 by simp
        from False inside rng show ?thesis
          by (simp del: dayLoop.simps add: upt dayLoop_step thu one school_days_iff)
      next
        case 3
        with False inside i show ?thesis
          by (simp del: dayLoop.simps add: upt dayLoop_step IH wd school_days_iff)
      qed
    qed
  qed
qed

lemma dayLoop_week:
  "dayLoop zone s (endOfDay e) bds wb (sundayOfWeek s j * dayMs) [0..<7] = weekDaysOf zone s e bds wb j"
  using dayLoop_closed [where w = "sundayOfWeek s j" and i = 0 and s = s and e = e
      and bds = bds and wb = wb, OF sundayOfWeek_is_sunday]
  by (simp add: weekDaysOf_def)

lemma sunday_le_iff: "sundayOfWeek s j \<le> d \<longleftrightarrow> j \<le> (d - firstSunday s) div 7 + 1"
proof -
  define x where "x = d - firstSunday s"
  define q where "q = x div 7"
  define r where "r = x mod 7"
  have "x = 7 * q + r" "0 \<le> r" "r < 7" by (simp_all add: q_def r_def)
  then have "7 * (j - 1) \<le> x \<longleftrightarrow> j - 1 \<le> q" by arith
  then show ?thesis unfolding sundayOfWeek_def x_def q_def by linarith
qed

lemma weekStart_before_finish:
  "isBefore (sundayOfWeek s j * dayMs) (endOfDay e) \<longleftrightarrow> j \<le> getWeekNum s e"
  by (simp add: isBefore_endOfDay sunday_le_iff getWeekNum_dayOf)

lemma next_weekStart: "addDays (sundayOfWeek s j * dayMs) 7 = sundayOfWeek s (j + 1) * dayMs"
  by (simp add: addDays_mult sundayOfWeek_Suc)

lemma weeksLoop_closed:
  "weeksLoop zone s (endOfDay e) bds bws (sundayOfWeek s j * dayMs) j cnt =
     numberWeeks zone s e bds bws [j .. getWeekNum s e] cnt"
proof (induction "nat (getWeekNum s e + 1 - j)" arbitrary: j cnt)
  case 0
  then have "getWeekNum s e < j" by simp
  then show ?case
    by (subst weeksLoop.simps) (simp add: weekStart_before_finish)
next
  case (Suc k)
  then have le: "j \<le> getWeekNum s e" by simp
  then have upto: "[j .. getWeekNum s e] = j # [j + 1 .. getWeekNum s e]"
    by (simp add: upto_rec1)
  have "k = nat (getWeekNum s e + 1 - (j + 1))" using Suc.hyps(2) by simp
  note IH = Suc.hyps(1) [OF this]
  show ?case
    by (subst weeksLoop.simps)
       (simp add: weekStart_before_finish le upto dayLoop_week next_weekStart IH Let_def)
qed

lemma generateEmptyWeeks_closed:
  "generateEmptyWeeks zone (Some s) (Some e) bds bws =
     numberWeeks zone s e bds bws [1 .. getWeekNum s e] 1"
  using weeksLoop_closed [of zone s e bds bws 1 1]
  by (simp add: generateEmptyWeeks_def alignSunday_start sundayOfWeek_1)

lemma rangesLoop_closed:
  "rangesLoop s (endOfDay e) (sundayOfWeek s j * dayMs) j =
     map (\<lambda>j. \<lparr>wr_weekNumber = j, range = (sundayOfWeek s j, sundayOfWeek s j + 4)\<rparr>)
       (filter (\<lambda>j. dayOf s \<le> sundayOfWeek s j + 4) [j .. getWeekNum s e])"
proof (induction "nat (getWeekNum s e + 1 - j)" arbitrary: j)
  case 0
  then have "getWeekNum s e < j" by simp
  then show ?case
    by (subst rangesLoop.simps) (simp add: weekStart_before_finish)
next
  case (Suc k)
  then have le: "j \<le> getWeekNum s e" by simp
  then have upto: "[j .. getWeekNum s e] = j # [j + 1 .. getWeekNum s e]"
    by (simp add: upto_rec1)
  have "k = nat (getWeekNum s e + 1 - (j + 1))" using Suc.hyps(2) by simp
  note IH = Suc.hyps(1) [OF this]
  have before: "isBefore (sundayOfWeek s j * dayMs) (endOfDay e)"
    using le by (simp add: weekStart_before_finish)
  then have notafter: "\<not> isAfter (sundayOfWeek s j * dayMs) (endOfDay e)"
    by (simp add: isBefore_def isAfter_def)
  have thursday: "isBefore (addDays (sundayOfWeek s j * dayMs) 4) (startOfDay s)
      \<longleftrightarrow> \<not> dayOf s \<le> sundayOfWeek s j + 4"
    by (simp add: addDays_mult isBefore_startOfDay not_le)
  have label: "format_MMM_d (sundayOfWeek s j * dayMs) = sundayOfWeek s j"
    "format_MMM_d (addDays (sundayOfWeek s j * dayMs) 4) = sundayOfWeek s j + 4"
    by (simp_all add: format_MMM_d_def addDays_mult flip: dayOf_def)
  show ?case
    by (subst rangesLoop.simps)
       (simp add: before notafter thursday label upto next_weekStart IH Let_def)
qed

lemma getWeekDateRanges_closed:
  "getWeekDateRanges (Some s) (Some e) =
     map (\<lambda>j. \<lparr>wr_weekNumber = j, range = (sundayOfWeek s j, sundayOfWeek s j + 4)\<rparr>)
       (filter (\<lambda>j. dayOf s \<le> sundayOfWeek s j + 4) [1 .. getWeekNum s e])"
  using rangesLoop_closed [of s e 1]
  by (simp add: getWeekDateRanges_def alignSunday_start sundayOfWeek_1)

section \<open>Weeks and days of the generated plan\<close>

lemma emitWeek_days: "concat (map days (fst (emitWeek wb wd cnt))) = wd"
  by (cases wb) (simp_all add: emitWeek_def)

lemma emitWeek_member:
  "wp \<in> set (fst (emitWeek wb wd cnt)) \<Longrightarrow> days wp = wd \<and> wd \<noteq> []"
  by (cases wb) (auto simp: emitWeek_def split: if_splits)

lemma emitWeek_number:
  "wp \<in> set (fst (emitWeek wb wd cnt)) \<Longrightarrow>
     weekNumber wp = (case wb of None \<Rightarrow> Some cnt
                      | Some b \<Rightarrow> if excludeFromCount b then None else Some cnt)"
  by (cases wb) (auto simp: emitWeek_def split: if_splits)

lemma numberWeeks_days:
  "concat (map days (numberWeeks zone s e bds bws js cnt)) =
     concat (map (\<lambda>j. weekDaysOf zone s e bds (find (\<lambda>bw. bw_weekNumber bw = j) bws) j) js)"
  by (induction js arbitrary: cnt) (simp_all add: Let_def emitWeek_days)

lemma numberWeeks_member:
  "wp \<in> set (numberWeeks zone s e bds bws js cnt) \<Longrightarrow>
     \<exists>j \<in> set js. \<exists>c.
        wp \<in> set (fst (emitWeek (find (\<lambda>bw. bw_weekNumber bw = j) bws)
                     (weekDaysOf zone s e bds (find (\<lambda>bw. bw_weekNumber bw = j) bws) j) c))"
proof (induction js arbitrary: cnt)
  case Nil
  then show ?case by simp
next
  case (Cons j js)
  then show ?case by (auto simp: Let_def)
qed

lemma weekDaysOf_member:
  assumes "dp \<in> set (weekDaysOf zone s e bds wb j)"
  shows "\<exists>d. dp = dayPlanAt zone bds wb d \<and> sundayOfWeek s j \<le> d \<and> d \<le> sundayOfWeek s j + 4
           \<and> inRange s e d"
  using assms by (auto simp: weekDaysOf_def)

lemma dayPlanAt_week: 
  assumes "sundayOfWeek s j \<le> d" "d \<le> sundayOfWeek s j + 4"
  shows "getWeekNum s (date (dayPlanAt zone bds wb d)) = j"
  using assms by (intro getWeekNum_in_week) (simp_all add: dayPlanAt_def)

text \<open>Every emitted week has days, and they all lie in the raw week it was built for.\<close>

lemma generated_week:
  assumes "wp \<in> set (generateEmptyWeeks zone (Some s) (Some e) bds bws)"
  obtains j where "1 \<le> j" "j \<le> getWeekNum s e" "days wp \<noteq> []"
    "days wp = weekDaysOf zone s e bds (find (\<lambda>bw. bw_weekNumber bw = j) bws) j"
    "\<forall>dp \<in> set (days wp). getWeekNum s (date dp) = j"
    "weekNumber wp = None \<longleftrightarrow>
       (case find (\<lambda>bw. bw_weekNumber bw = j) bws of None \<Rightarrow> False
        | Some b \<Rightarrow> excludeFromCount b)"
proof -
  from assms obtain j c where j: "j \<in> set [1 .. getWeekNum s e]"
    and wp: "wp \<in> set (fst (emitWeek (find (\<lambda>bw. bw_weekNumber bw = j) bws)
                     (weekDaysOf zone s e bds (find (\<lambda>bw. bw_weekNumber bw = j) bws) j) c))"
    unfolding generateEmptyWeeks_closed by (blast dest: numberWeeks_member)
  let ?wb = "find (\<lambda>bw. bw_weekNumber bw = j) bws"
  from emitWeek_member [OF wp] have d: "days wp = weekDaysOf zone s e bds ?wb j" "days wp \<noteq> []"
    by simp_all
  have "\<forall>dp \<in> set (days wp). getWeekNum s (date dp) = j"
    unfolding d(1) by (auto dest!: weekDaysOf_member simp: dayPlanAt_week)
  moreover have "weekNumber wp = None \<longleftrightarrow>
       (case ?wb of None \<Rightarrow> False | Some b \<Rightarrow> excludeFromCount b)"
    using emitWeek_number [OF wp] by (simp split: option.splits)
  ultimately show thesis using that [of j] j d by simp
qed

lemma find_week_Some_iff:
  "find (\<lambda>bw. bw_weekNumber bw = j) bws \<noteq> None \<longleftrightarrow> (\<exists>bw \<in> set bws. bw_weekNumber bw = j)"
  by (auto simp: find_None_iff)

lemma findDateBlock_eq:
  "findDateBlock zone bds d = find (\<lambda>bd. sameDate zone bd (d * dayMs)) bds"
  unfolding findDateBlock_def
  by (rule find_cong) (auto simp: sameDate_def format_yyyy_MM_dd_def dayOf_def[symmetric]
      split: option.splits)

lemma findDateBlock_Some_iff:
  "findDateBlock zone bds d \<noteq> None \<longleftrightarrow> (\<exists>bd \<in> set bds. sameDate zone bd (d * dayMs))"
  by (auto simp: findDateBlock_eq find_None_iff)

lemma sameDate_date: "sameDate zone bd (date (dayPlanAt zone bds wb d)) = sameDate zone bd (d * dayMs)"
  by (simp add: dayPlanAt_def)

section \<open>The lesson packer, day by day\<close>

lemma distributeDay_blocked:
  "isBlocked day \<Longrightarrow>
     distributeDay lessons st day = (day\<lparr>lessonId := None, lessonName := None\<rparr>, st)"
  by (simp add: distributeDay_def)

lemma distributeDay_isBlocked [simp]:
  "isBlocked (fst (distributeDay lessons st day)) = isBlocked day"
  by (simp add: distributeDay_def Let_def)

lemma distributeDay_blocked_id:
  "isBlocked day \<Longrightarrow> lessonId (fst (distributeDay lessons st day)) = None"
  by (simp add: distributeDay_blocked)

lemma distributeDays_append:
  "distributeDays lessons st (xs @ ys) =
     (fst (distributeDays lessons st xs)
        @ fst (distributeDays lessons (snd (distributeDays lessons st xs)) ys),
      snd (distributeDays lessons (snd (distributeDays lessons st xs)) ys))"
  by (induction xs arbitrary: st) (simp_all add: split_beta)

lemma distributeWeeks_flat:
  "concat (map days (fst (distributeWeeks lessons st weeks))) =
     fst (distributeDays lessons st (concat (map days weeks)))
   \<and> snd (distributeWeeks lessons st weeks) =
     snd (distributeDays lessons st (concat (map days weeks)))"
  by (induction weeks arbitrary: st) (simp_all add: split_beta distributeDays_append)

lemma distributeDays_blocked_unassigned:
  "d \<in> set (fst (distributeDays lessons st ds)) \<Longrightarrow> isBlocked d \<Longrightarrow> lessonId d = None"
proof (induction ds arbitrary: st)
  case Nil
  then show ?case by simp
next
  case (Cons day rest)
  from Cons.prems(1) have
    "d = fst (distributeDay lessons st day)
     \<or> d \<in> set (fst (distributeDays lessons (snd (distributeDay lessons st day)) rest))"
    by (simp add: split_beta)
  then show ?case
  proof
    assume eq: "d = fst (distributeDay lessons st day)"
    with Cons.prems(2) have "isBlocked day" by simp
    with eq show ?thesis by (simp add: distributeDay_blocked_id)
  next
    assume "d \<in> set (fst (distributeDays lessons (snd (distributeDay lessons st day)) rest))"
    with Cons.IH Cons.prems(2) show ?thesis by blast
  qed
qed

lemma distributeDays_shape:
  "map isBlocked (fst (distributeDays lessons st ds)) = map isBlocked ds"
  by (induction ds arbitrary: st) (simp_all add: split_beta)

lemma distributeWeeks_shape:
  "map (map isBlocked \<circ> days) (fst (distributeWeeks lessons st weeks))
     = map (map isBlocked \<circ> days) weeks"
  by (induction weeks arbitrary: st) (simp_all add: split_beta distributeDays_shape)

section \<open>The lesson packer, lesson by lesson\<close>

lemma distributeDays_ids:
  "map lessonId (fst (distributeDays lessons (idx, counter) ds))
     = packIds (drop idx lessons) counter ds"
proof (induction ds arbitrary: idx counter)
  case Nil
  show ?case by simp
next
  case (Cons d ds)
  show ?case
  proof (cases "isBlocked d")
    case True
    then show ?thesis by (simp add: distributeDay_blocked split_beta Cons.IH)
  next
    case free: False
    show ?thesis
    proof (cases "idx < length lessons")
      case False
      with free show ?thesis
        using Cons.IH [of idx counter] by (simp add: distributeDay_def split_beta)
    next
      case True
      then have cur: "drop idx lessons = lessons ! idx # drop (Suc idx) lessons"
        by (simp add: Cons_nth_drop_Suc)
      from True free show ?thesis
        using Cons.IH [of "Suc idx" 0] Cons.IH [of idx "Suc counter"]
        by (simp add: distributeDay_def split_beta cur Let_def)
    qed
  qed
qed

lemma assignedDays_packIds:
  "assignedDays x (distributeLessons weeks lessons)
     = length (filter (\<lambda>y. y = Some x) (packIds lessons 0 (allDays weeks)))"
proof -
  have "map lessonId (allDays (distributeLessons weeks lessons))
      = packIds lessons 0 (allDays weeks)"
    using distributeDays_ids [of lessons 0 0 "allDays weeks"]
    by (simp add: allDays_def distributeLessons_def jsonClone_def distributeWeeks_flat)
  then have "length (filter (\<lambda>y. y = Some x) (map lessonId (allDays (distributeLessons weeks lessons))))
      = length (filter (\<lambda>y. y = Some x) (packIds lessons 0 (allDays weeks)))"
    by simp
  then show ?thesis by (simp add: assignedDays_def filter_map comp_def)
qed

lemma js_ge_needed:
  "0 < c \<Longrightarrow> js_ge c (pacingOr1 p) \<longleftrightarrow> (case daysNeeded p of None \<Rightarrow> False | Some n \<Rightarrow> n \<le> c)"
proof (cases p)
  case (Num r)
  assume c: "0 < c"
  have "r \<le> of_nat c \<longleftrightarrow> nat \<lceil>r\<rceil> \<le> c"
  proof -
    have "r \<le> of_nat c \<longleftrightarrow> \<lceil>r\<rceil> \<le> int c" by (simp add: ceiling_le_iff)
    also have "\<dots> \<longleftrightarrow> nat \<lceil>r\<rceil> \<le> c" by linarith
    finally show ?thesis .
  qed
  with c Num show ?thesis by (auto simp: js_ge_def pacingOr1_def daysNeeded_def)
qed (simp_all add: js_ge_def pacingOr1_def daysNeeded_def)

lemma daysNeeded_pos: "daysNeeded p = Some n \<Longrightarrow> 0 < n"
  by (cases p) (auto simp: daysNeeded_def split: if_splits)

lemma packIds_other:
  "x \<notin> lesson_id ` set ls \<Longrightarrow> filter (\<lambda>y. y = Some x) (packIds ls counter ds) = []"
proof (induction ds arbitrary: ls counter)
  case Nil
  show ?case by simp
next
  case (Cons d ds)
  note IH = Cons.IH and prems = Cons.prems
  show ?case
  proof (cases ls)
    case Nil
    with IH [of "[]" counter] show ?thesis by simp
  next
    case (Cons l rest)
    with prems have "x \<noteq> lesson_id l" "x \<notin> lesson_id ` set rest" by auto
    with IH [of rest 0] IH [of ls "Suc counter"] IH [of ls counter] prems Cons show ?thesis
      by simp
  qed
qed

text \<open>The lesson under the cursor, with \<open>counter\<close> of its \<open>n\<close> days already consumed.\<close>

lemma packIds_current:
  assumes "daysNeeded (pacing l) = Some n" "lesson_id l \<notin> lesson_id ` set rest"
  shows "counter < n \<Longrightarrow>
     length (filter (\<lambda>y. y = Some (lesson_id l)) (packIds (l # rest) counter ds))
       = min (n - counter) (length (filter (\<lambda>d. \<not> isBlocked d) ds))"
proof (induction ds arbitrary: counter)
  case Nil
  show ?case by simp
next
  case (Cons d ds)
  show ?case
  proof (cases "isBlocked d")
    case True
    with Cons show ?thesis by simp
  next
    case False
    have ge: "js_ge (counter + 1) (pacingOr1 (pacing l)) \<longleftrightarrow> n \<le> counter + 1"
      using js_ge_needed [of "counter + 1" "pacing l"] assms(1) by simp
    show ?thesis
    proof (cases "n \<le> counter + 1")
      case True
      with Cons.prems have "n - counter = 1" by simp
      with False True ge show ?thesis
        by (simp add: packIds_other [OF assms(2)])
    next
      case unfinished: False
      then have "Suc counter < n" by simp
      from Cons.IH [OF this] False unfinished ge show ?thesis by simp
    qed
  qed
qed

text \<open>A lesson further down the list, behind the lessons \<open>pre\<close>.\<close>

lemma packIds_later:
  assumes l: "daysNeeded (pacing l) = Some n"
    and post: "lesson_id l \<notin> lesson_id ` set post"
  shows "\<lbrakk>\<forall>x \<in> set pre. daysNeeded (pacing x) \<noteq> None; lesson_id l \<notin> lesson_id ` set pre;
      pre \<noteq> []; counter < the (daysNeeded (pacing (hd pre)))\<rbrakk> \<Longrightarrow>
     length (filter (\<lambda>y. y = Some (lesson_id l)) (packIds (pre @ l # post) counter ds))
       = min n (length (filter (\<lambda>d. \<not> isBlocked d) ds)
                - (sum_list (map (\<lambda>x. the (daysNeeded (pacing x))) pre) - counter))"
proof (induction ds arbitrary: pre counter)
  case Nil
  show ?case by simp
next
  case (Cons d ds)
  note IH = Cons.IH and prems = Cons.prems
  from prems(3) obtain p rest where pre: "pre = p # rest" by (cases pre) auto
  with prems(1) obtain m where m: "daysNeeded (pacing p) = Some m" by auto
  with prems(4) pre have cm: "counter < m" by simp
  from prems(2) pre have ne: "lesson_id l \<noteq> lesson_id p" by auto
  let ?total = "sum_list (map (\<lambda>x. the (daysNeeded (pacing x))) rest)"
  show ?case
  proof (cases "isBlocked d")
    case True
    with IH [OF prems] show ?thesis by simp
  next
    case False
    have ge: "js_ge (counter + 1) (pacingOr1 (pacing p)) \<longleftrightarrow> m \<le> counter + 1"
      using js_ge_needed [of "counter + 1" "pacing p"] m by simp
    show ?thesis
    proof (cases "m \<le> counter + 1")
      case finished: True
      with cm have mc: "m = counter + 1" by simp
      show ?thesis
      proof (cases rest)
        case Nil
        have "length (filter (\<lambda>y. y = Some (lesson_id l)) (packIds (l # post) 0 ds))
            = min n (length (filter (\<lambda>d. \<not> isBlocked d) ds))"
          using daysNeeded_pos [OF l] packIds_current [OF l post, of 0 ds] by simp
        with False finished ge ne pre Nil m mc show ?thesis by simp
      next
        case (Cons q others)
        from prems(1) pre Cons obtain k where k: "daysNeeded (pacing q) = Some k" by auto
        have "length (filter (\<lambda>y. y = Some (lesson_id l)) (packIds (rest @ l # post) 0 ds))
            = min n (length (filter (\<lambda>d. \<not> isBlocked d) ds) - (?total - 0))"
          using prems(1,2) pre Cons daysNeeded_pos [OF k] k
          by (intro IH) auto
        with False finished ge ne pre m mc show ?thesis by simp
      qed
    next
      case unfinished: False
      then have sc: "Suc counter < m" by simp
      have "length (filter (\<lambda>y. y = Some (lesson_id l)) (packIds (pre @ l # post) (Suc counter) ds))
          = min n (length (filter (\<lambda>d. \<not> isBlocked d) ds)
                - (sum_list (map (\<lambda>x. the (daysNeeded (pacing x))) pre) - Suc counter))"
        using prems(1,2,3) sc pre m by (intro IH) auto
      moreover have "Suc (length (filter (\<lambda>d. \<not> isBlocked d) ds))
            - (sum_list (map (\<lambda>x. the (daysNeeded (pacing x))) pre) - counter)
          = length (filter (\<lambda>d. \<not> isBlocked d) ds)
            - (sum_list (map (\<lambda>x. the (daysNeeded (pacing x))) pre) - Suc counter)"
        using sc pre m by simp
      ultimately show ?thesis using False unfinished ge ne pre by simp
    qed
  qed
qed

text \<open>
  The count for any lesson of the list whose predecessors all finish: its own days, cut
  off where the unblocked days run out.
\<close>

lemma assigned_days_general:
  assumes "distinct (map lesson_id (pre @ l # post))"
    and "\<forall>x \<in> set pre. daysNeeded (pacing x) \<noteq> None"
    and "daysNeeded (pacing l) = Some n"
  shows "assignedDays (lesson_id l) (distributeLessons weeks (pre @ l # post))
     = min n (unblockedDays weeks - sum_list (map (\<lambda>x. the (daysNeeded (pacing x))) pre))"
proof -
  from assms(1) have post: "lesson_id l \<notin> lesson_id ` set post"
    and npre: "lesson_id l \<notin> lesson_id ` set pre"
    by auto
  show ?thesis
  proof (cases pre)
    case Nil
    with packIds_current [OF assms(3) post, of 0 "allDays weeks"] daysNeeded_pos [OF assms(3)]
    show ?thesis by (simp add: assignedDays_packIds unblockedDays_def)
  next
    case (Cons p rest)
    with assms(2) obtain m where "daysNeeded (pacing p) = Some m" by auto
    with daysNeeded_pos [OF this] Cons have "0 < the (daysNeeded (pacing (hd pre)))" by simp
    with packIds_later [OF assms(3) post assms(2) npre, of 0 "allDays weeks"] Cons
    show ?thesis by (simp add: assignedDays_packIds unblockedDays_def)
  qed
qed

section \<open>Blocked days\<close>

lemma sample_shape:
  "map (length \<circ> days) (generateEmptyWeeks zoneUTC (Some sampleStart) (Some sampleEnd) sampleDates sampleWeeks)
     = [2, 5, 2]"
  by code_simp

text \<open>
  In the weeks that \<open>generateEmptyWeeks\<close> returns, a Day Plan is blocked exactly when
  the date that \<open>parseISOIfNeeded\<close> reads from some day-level exclusion falls on its
  calendar day, or the number of some week-level exclusion is its raw week index.
\<close>

lemma day_blocked_iff_matched:
  "\<forall>wp \<in> set (generateEmptyWeeks zone (Some s) (Some e) blockedDates blockedWeeks).
     \<forall>dp \<in> set (days wp).
       isBlocked dp \<longleftrightarrow>
         (\<exists>bd \<in> set blockedDates. sameDate zone bd (date dp))
         \<or> (\<exists>bw \<in> set blockedWeeks. bw_weekNumber bw = getWeekNum s (date dp))"
proof (intro ballI)
  fix wp dp
  assume wp: "wp \<in> set (generateEmptyWeeks zone (Some s) (Some e) blockedDates blockedWeeks)"
    and dp: "dp \<in> set (days wp)"
  from wp obtain j where
    ds: "days wp = weekDaysOf zone s e blockedDates
           (find (\<lambda>bw. bw_weekNumber bw = j) blockedWeeks) j"
    and wk: "\<forall>dp \<in> set (days wp). getWeekNum s (date dp) = j"
    by (rule generated_week)
  from dp ds obtain d where
    d: "dp = dayPlanAt zone blockedDates (find (\<lambda>bw. bw_weekNumber bw = j) blockedWeeks) d"
    by (auto dest: weekDaysOf_member)
  have "isBlocked dp \<longleftrightarrow>
      find (\<lambda>bw. bw_weekNumber bw = j) blockedWeeks \<noteq> None
      \<or> findDateBlock zone blockedDates d \<noteq> None"
    by (simp add: d dayPlanAt_def)
  also have "\<dots> \<longleftrightarrow> (\<exists>bw \<in> set blockedWeeks. bw_weekNumber bw = j)
      \<or> (\<exists>bd \<in> set blockedDates. sameDate zone bd (date dp))"
    by (simp only: find_week_Some_iff findDateBlock_Some_iff d sameDate_date)
  finally show "isBlocked dp \<longleftrightarrow>
         (\<exists>bd \<in> set blockedDates. sameDate zone bd (date dp))
         \<or> (\<exists>bw \<in> set blockedWeeks. bw_weekNumber bw = getWeekNum s (date dp))"
    using wk dp by auto
qed

text \<open>
  A date-only text names day \<open>d\<close>.  The date read from it falls on day \<open>d\<close> at UTC and
  east of it, and on the day before \<open>d\<close> west of it.
\<close>

lemma date_only_text_day:
  assumes "bd_date bd = DateOnlyText d" and "- dayMs \<le> zone" and "zone < dayMs"
  shows "sameDate zone bd t \<longleftrightarrow> dayOf t = (if zone < 0 then d - 1 else d)"
proof -
  have east: "(d * dayMs + zone) div dayMs = d" if "0 \<le> zone"
    using that assms(3) by (intro int_div_pos_eq [where r = zone]) simp_all
  have west: "(d * dayMs + zone) div dayMs = d - 1" if "zone < 0"
    using that assms(2) by (intro int_div_pos_eq [where r = "zone + dayMs"])
      (simp_all add: algebra_simps)
  show ?thesis
    using east west
    by (auto simp add: sameDate_def parseISOIfNeeded_def newDate_def isValid_def assms(1) dayOf_def)
qed

text \<open>The other inputs: a date-time text, a text that does not parse, a \<open>Date\<close>.\<close>

lemma date_time_text_day:
  "bd_date bd = DateTimeText u \<Longrightarrow> sameDate zone bd t \<longleftrightarrow> dayOf u = dayOf t"
  by (simp add: sameDate_def parseISOIfNeeded_def newDate_def isValid_def)

lemma unreadable_text_no_day:
  "bd_date bd = OtherText \<Longrightarrow> \<not> sameDate zone bd t"
  by (simp add: sameDate_def parseISOIfNeeded_def newDate_def isValid_def)

lemma date_object_day:
  "bd_date bd = DateObject x \<Longrightarrow> sameDate zone bd t \<longleftrightarrow> (\<exists>u. x = Some u \<and> dayOf u = dayOf t)"
  by (cases x) (simp_all add: sameDate_def parseISOIfNeeded_def)

text \<open>
  Claim C4 does not hold of the code: a Day Plan whose calendar date is the date of a
  day-level exclusion can be left unblocked, and a Day Plan that no exclusion names can
  be blocked.  The interface stores the date of a day-level exclusion as a date-only
  text, which \<open>new Date\<close> reads as midnight UTC, while the date of a Day Plan is spelled
  in local time.  In a zone five hours west of UTC, for the range from Wednesday
  4 September 2024 (day 19970) to Thursday 5 September 2024 (day 19971), with the single
  day-level exclusion \<open>2024-09-05\<close> labelled Exam and no week-level exclusion, the Day Plan
  of 4 September is blocked and carries the label, and the Day Plan of 5 September is
  not blocked.
\<close>

theorem exclusion_blocks_the_day_before:
  "map (map (\<lambda>dp. (format_yyyy_MM_dd (date dp), isBlocked dp, blockLabel dp)) \<circ> days)
     (generateEmptyWeeks zoneWest (Some sameMorning) (Some thursdayAfter) [examOnFifth] [])
   = [[(19970, True, Some ''Exam''), (19971, False, None)]]"
  by code_simp

section \<open>Available days\<close>

lemma same_filtered_upto:
  fixes xs ys :: "int list"
  assumes "set (filter P [a..b]) = set (filter Q [c..d])"
  shows "filter P [a..b] = filter Q [c..d]"
proof (rule sorted_distinct_set_unique)
  show "set (filter P [a..b]) = set (filter Q [c..d])" by (rule assms)
qed (simp_all add: sorted_wrt_filter)

lemma schoolDay_in_week:
  assumes "sundayOfWeek s j \<le> d" "d \<le> sundayOfWeek s j + 6"
  shows "schoolDay d \<longleftrightarrow> d \<le> sundayOfWeek s j + 4"
proof -
  have "(sundayOfWeek s j + (d - sundayOfWeek s j) + 4) mod 7 = d - sundayOfWeek s j"
    using assms by (intro weekday_offset sundayOfWeek_is_sunday) simp_all
  then have "(d + 4) mod 7 = d - sundayOfWeek s j" by simp
  with assms show ?thesis by (auto simp: schoolDay_def school_days_iff)
qed

lemma week_school_days:
  "filter (\<lambda>d. schoolDay d \<and> inRange s e d) [sundayOfWeek s j .. sundayOfWeek s j + 6]
     = filter (inRange s e) [sundayOfWeek s j .. sundayOfWeek s j + 4]"
  by (rule same_filtered_upto) (auto simp: schoolDay_in_week)

lemma weeks_school_days:
  "j \<le> r + 1 \<Longrightarrow>
   concat (map (\<lambda>j. filter (inRange s e) [sundayOfWeek s j .. sundayOfWeek s j + 4]) [j .. r])
     = filter (\<lambda>d. schoolDay d \<and> inRange s e d) [sundayOfWeek s j .. sundayOfWeek s r + 6]"
proof (induction "nat (r + 1 - j)" arbitrary: j)
  case 0
  then have "j = r + 1" by simp
  then show ?case by (simp add: sundayOfWeek_Suc)
next
  case (Suc k)
  then have le: "j \<le> r" by simp
  then have upto: "[j .. r] = j # [j + 1 .. r]" by (simp add: upto_rec1)
  have "k = nat (r + 1 - (j + 1))" using Suc.hyps(2) by simp
  moreover have "j + 1 \<le> r + 1" using le by simp
  ultimately have IH:
    "concat (map (\<lambda>j. filter (inRange s e) [sundayOfWeek s j .. sundayOfWeek s j + 4]) [j + 1 .. r])
     = filter (\<lambda>d. schoolDay d \<and> inRange s e d) [sundayOfWeek s (j + 1) .. sundayOfWeek s r + 6]"
    by (rule Suc.hyps(1))
  have "sundayOfWeek s j \<le> sundayOfWeek s r" using le by (simp add: sundayOfWeek_def)
  then have "[sundayOfWeek s j .. sundayOfWeek s r + 6]
      = [sundayOfWeek s j .. sundayOfWeek s j + 6] @ [sundayOfWeek s j + 6 + 1 .. sundayOfWeek s r + 6]"
    by (intro upto_split2) simp_all
  also have "sundayOfWeek s j + 6 + 1 = sundayOfWeek s (j + 1)" by (simp add: sundayOfWeek_Suc)
  finally show ?case by (simp add: upto IH week_school_days)
qed

lemma last_week_bounds:
  "sundayOfWeek s (getWeekNum s e) \<le> dayOf e \<and> dayOf e \<le> sundayOfWeek s (getWeekNum s e) + 6"
proof -
  define x where "x = dayOf e - firstSunday s"
  have "x = 7 * (x div 7) + x mod 7" by simp
  moreover have "0 \<le> x mod 7" "x mod 7 < 7" by simp_all
  ultimately have "7 * (x div 7) \<le> x \<and> x \<le> 7 * (x div 7) + 6" by linarith
  then show ?thesis by (simp add: getWeekNum_dayOf sundayOfWeek_def x_def)
qed

lemma school_days_by_week:
  assumes "dayOf s \<le> dayOf e"
  shows "concat (map (\<lambda>j. filter (inRange s e) [sundayOfWeek s j .. sundayOfWeek s j + 4])
           [1 .. getWeekNum s e])
     = filter schoolDay [dayOf s .. dayOf e]"
proof -
  have "sundayOfWeek s 1 \<le> dayOf e"
    using firstSunday_bounds [of s] assms by (simp add: sundayOfWeek_1)
  then have "1 \<le> getWeekNum s e" by (simp add: sunday_le_iff getWeekNum_dayOf)
  then have "concat (map (\<lambda>j. filter (inRange s e) [sundayOfWeek s j .. sundayOfWeek s j + 4])
           [1 .. getWeekNum s e])
      = filter (\<lambda>d. schoolDay d \<and> inRange s e d)
          [sundayOfWeek s 1 .. sundayOfWeek s (getWeekNum s e) + 6]"
    by (intro weeks_school_days) simp
  also have "\<dots> = filter schoolDay [dayOf s .. dayOf e]"
    using firstSunday_bounds [of s] last_week_bounds [of s e]
    by (intro same_filtered_upto) (auto simp: inRange_def sundayOfWeek_1)
  finally show ?thesis .
qed

lemma available_in_week:
  "length (filter (\<lambda>dp. \<not> isBlocked dp)
      (weekDaysOf zone s e bds (find (\<lambda>bw. bw_weekNumber bw = j) bws) j))
   = length (filter (\<lambda>d. \<not> excludedDay zone s bds bws d)
      (filter (inRange s e) [sundayOfWeek s j .. sundayOfWeek s j + 4]))"
proof -
  let ?wb = "find (\<lambda>bw. bw_weekNumber bw = j) bws"
  have "filter (\<lambda>dp. \<not> isBlocked dp) (weekDaysOf zone s e bds ?wb j)
      = map (dayPlanAt zone bds ?wb)
          (filter (\<lambda>d. \<not> isBlocked (dayPlanAt zone bds ?wb d))
             (filter (inRange s e) [sundayOfWeek s j .. sundayOfWeek s j + 4]))"
    by (simp add: weekDaysOf_def filter_map comp_def)
  also have "filter (\<lambda>d. \<not> isBlocked (dayPlanAt zone bds ?wb d))
             (filter (inRange s e) [sundayOfWeek s j .. sundayOfWeek s j + 4])
      = filter (\<lambda>d. \<not> excludedDay zone s bds bws d)
             (filter (inRange s e) [sundayOfWeek s j .. sundayOfWeek s j + 4])"
  proof (rule filter_cong [OF refl])
    fix d
    assume "d \<in> set (filter (inRange s e) [sundayOfWeek s j .. sundayOfWeek s j + 4])"
    then have "firstSunday s + 7 * (j - 1) \<le> d" "d \<le> firstSunday s + 7 * (j - 1) + 6"
      by (simp_all add: sundayOfWeek_def)
    then have "(d - firstSunday s) div 7 = j - 1" by (rule week_div)
    then show "(\<not> isBlocked (dayPlanAt zone bds ?wb d)) = (\<not> excludedDay zone s bds bws d)"
      by (simp add: dayPlanAt_def excludedDay_def)
  qed
  finally show ?thesis by simp
qed

lemma length_filter_concat_map:
  assumes "\<And>j. length (filter P (f j)) = length (filter Q (g j))"
  shows "length (filter P (concat (map f js))) = length (filter Q (concat (map g js)))"
  by (induction js) (simp_all add: assms)

lemma generated_available_days:
  assumes "dayOf s \<le> dayOf e"
  shows "length (filter (\<lambda>dp. \<not> isBlocked dp)
           (concat (map days (generateEmptyWeeks zone (Some s) (Some e) bds bws))))
     = length (filter (\<lambda>d. \<not> excludedDay zone s bds bws d) (filter schoolDay [dayOf s .. dayOf e]))"
proof -
  have "length (filter (\<lambda>dp. \<not> isBlocked dp)
           (concat (map days (generateEmptyWeeks zone (Some s) (Some e) bds bws))))
      = length (filter (\<lambda>d. \<not> excludedDay zone s bds bws d)
          (concat (map (\<lambda>j. filter (inRange s e) [sundayOfWeek s j .. sundayOfWeek s j + 4])
             [1 .. getWeekNum s e])))"
    unfolding generateEmptyWeeks_closed numberWeeks_days
    by (rule length_filter_concat_map) (rule available_in_week)
  then show ?thesis by (simp only: school_days_by_week [OF assms])
qed

lemma blockedDateStrings_iff:
  "d \<in> set (blockedDateStrings zone bds) \<longleftrightarrow> findDateBlock zone bds d \<noteq> None"
proof -
  have "d \<in> set (blockedDateStrings zone bds) \<longleftrightarrow> (\<exists>bd \<in> set bds. sameDate zone bd (d * dayMs))"
  proof (induction bds)
    case Nil
    show ?case by (simp add: blockedDateStrings_def)
  next
    case (Cons bd bds)
    have "blockedDateStrings zone (bd # bds) =
        (case parseISOIfNeeded zone (bd_date bd) of None \<Rightarrow> blockedDateStrings zone bds
         | Some t \<Rightarrow> dayOf t # blockedDateStrings zone bds)"
      by (simp add: blockedDateStrings_def format_yyyy_MM_dd_def dayOf_def
          split: option.splits)
    with Cons show ?case
      by (auto simp: sameDate_def split: option.splits)
  qed
  then show ?thesis by (simp only: findDateBlock_Some_iff)
qed

lemma stats_available_days:
  assumes "s \<le> e"
  shows "totalDays (calculateInstructionalStats zone (Some s) (Some e) bds bws)
     = length (filter (\<lambda>d. \<not> excludedDay zone s bds bws d) (filter schoolDay [dayOf s .. dayOf e]))"
proof -
  have all: "eachDayOfInterval (startOfDay s) (endOfDay e) = map (\<lambda>d. d * dayMs) [dayOf s .. dayOf e]"
    using dayOf_startOfDay [of s] dayOf_endOfDay [of e]
    by (simp add: eachDayOfInterval_def dayOf_def)
  have fmt: "format_yyyy_MM_dd (d * dayMs) = d" for d
    using dayOf_mult [of d] by (simp add: format_yyyy_MM_dd_def dayOf_def)
  have avail: "(if format_yyyy_MM_dd (d * dayMs) \<in> set (blockedDateStrings zone bds) then False
        else \<not> list_ex (\<lambda>bw. bw_weekNumber bw = getWeekNum s (d * dayMs)) bws)
      = (\<not> excludedDay zone s bds bws d)" for d
    by (auto simp: fmt blockedDateStrings_iff excludedDay_def getWeekNum_dayOf list_ex_iff
        find_None_iff)
  show ?thesis
    using assms
    by (simp add: calculateInstructionalStats_def isAfter_def all filter_map comp_def
        avail Let_def getDay_mult schoolDay_def)
qed

text \<open>
  Claim C1.  For a range with \<open>start \<le> end\<close> and any exclusion lists, \<open>totalDays\<close> of
  \<open>calculateInstructionalStats\<close> is the number of Day Plans that are not blocked in the
  weeks \<open>generateEmptyWeeks\<close> returns for the same inputs.
\<close>

theorem total_days_counts_unblocked_days:
  "s \<le> e \<longrightarrow>
     totalDays (calculateInstructionalStats zone (Some s) (Some e) blockedDates blockedWeeks)
       = length (filter (\<lambda>dp. \<not> isBlocked dp)
           (concat (map days (generateEmptyWeeks zone (Some s) (Some e) blockedDates blockedWeeks))))"
proof
  assume se: "s \<le> e"
  then have "dayOf s \<le> dayOf e" by (rule dayOf_mono)
  then show "totalDays (calculateInstructionalStats zone (Some s) (Some e) blockedDates blockedWeeks)
       = length (filter (\<lambda>dp. \<not> isBlocked dp)
           (concat (map days (generateEmptyWeeks zone (Some s) (Some e) blockedDates blockedWeeks))))"
    by (simp only: stats_available_days [OF se] generated_available_days)
qed

theorem total_days_counts_unblocked_days_witness:
  "sampleStart \<le> sampleEnd
   \<and> totalDays (calculateInstructionalStats zoneUTC (Some sampleStart) (Some sampleEnd) sampleDates sampleWeeks)
       = 3
   \<and> length (filter (\<lambda>dp. \<not> isBlocked dp)
        (concat (map days
           (generateEmptyWeeks zoneUTC (Some sampleStart) (Some sampleEnd) sampleDates sampleWeeks)))) = 3"
proof -
  have le: "sampleStart \<le> sampleEnd" by code_simp
  have n: "length (filter (\<lambda>dp. \<not> isBlocked dp)
        (concat (map days
           (generateEmptyWeeks zoneUTC (Some sampleStart) (Some sampleEnd) sampleDates sampleWeeks)))) = 3"
    by code_simp
  from total_days_counts_unblocked_days [of sampleStart sampleEnd zoneUTC sampleDates sampleWeeks] le n
  show ?thesis by simp
qed

section \<open>Week numbering\<close>

lemma emitWeek_cases:
  "(fst (emitWeek wb wd cnt) = [] \<and> snd (emitWeek wb wd cnt) = cnt)
   \<or> (\<exists>wp. fst (emitWeek wb wd cnt) = [wp] \<and> weekNumber wp = None
          \<and> snd (emitWeek wb wd cnt) = cnt)
   \<or> (\<exists>wp. fst (emitWeek wb wd cnt) = [wp] \<and> weekNumber wp = Some cnt
          \<and> snd (emitWeek wb wd cnt) = Suc cnt)"
  by (cases wb) (simp_all add: emitWeek_def)

lemma numberWeeks_counts_up:
  "\<exists>k. List.map_filter weekNumber (numberWeeks zone s e bds bws js cnt) = [cnt ..< cnt + k]"
proof (induction js arbitrary: cnt)
  case Nil
  have "List.map_filter weekNumber (numberWeeks zone s e bds bws [] cnt) = [cnt ..< cnt + 0]"
    by simp
  then show ?case by blast
next
  case (Cons j js)
  let ?wb = "find (\<lambda>bw. bw_weekNumber bw = j) bws"
  let ?p = "emitWeek ?wb (weekDaysOf zone s e bds ?wb j) cnt"
  have unfold: "numberWeeks zone s e bds bws (j # js) cnt
      = fst ?p @ numberWeeks zone s e bds bws js (snd ?p)"
    by (simp add: Let_def)
  from Cons.IH [of "snd ?p"] obtain k where
    k: "List.map_filter weekNumber (numberWeeks zone s e bds bws js (snd ?p))
          = [snd ?p ..< snd ?p + k]"
    by blast
  from emitWeek_cases [of ?wb "weekDaysOf zone s e bds ?wb j" cnt]
  consider (skip) "fst ?p = []" "snd ?p = cnt"
    | (unnumbered) wp where "fst ?p = [wp]" "weekNumber wp = None" "snd ?p = cnt"
    | (numbered) wp where "fst ?p = [wp]" "weekNumber wp = Some cnt" "snd ?p = Suc cnt"
    by blast
  then show ?case
  proof cases
    case skip
    with k unfold show ?thesis by auto
  next
    case unnumbered
    with k unfold have "List.map_filter weekNumber (numberWeeks zone s e bds bws (j # js) cnt)
        = [cnt ..< cnt + k]"
      by simp
    then show ?thesis by blast
  next
    case numbered
    with k unfold have "List.map_filter weekNumber (numberWeeks zone s e bds bws (j # js) cnt)
        = cnt # [Suc cnt ..< Suc cnt + k]"
      by simp
    also have "\<dots> = [cnt ..< cnt + Suc k]" by (simp add: upt_conv_Cons)
    finally show ?thesis by blast
  qed
qed

text \<open>
  Claim C2, as stated, fails when two week-level exclusions name the same raw week: with
  raw week 2 excluded first with \<open>excludeFromCount = False\<close> and then with
  \<open>excludeFromCount = True\<close>, the week is numbered although an exclusion with
  \<open>excludeFromCount = True\<close> matches its raw week index.
\<close>

theorem week_number_absent_counterexample:
  "\<not> (\<forall>wp \<in> set (generateEmptyWeeks zoneUTC (Some sampleStart) (Some sampleEnd) sampleDates twiceWeeks).
        weekNumber wp = None \<longleftrightarrow>
        (\<exists>bw \<in> set twiceWeeks.
            excludeFromCount bw \<and> bw_weekNumber bw = rawWeekOf sampleStart wp))"
  by code_simp

text \<open>
  Claim C2, amended.  In every result of \<open>generateEmptyWeeks\<close> the present week numbers,
  in chronological order, are \<open>1, 2, \<dots>, k\<close>; every Week Plan has a day (so its raw
  week index is that of its first day); and a Week Plan's number is absent exactly when
  the first week-level exclusion (in list order) whose number is the week's raw index has
  \<open>excludeFromCount = True\<close>.
\<close>

theorem week_numbers_sequential:
  "List.map_filter weekNumber (generateEmptyWeeks zone (Some s) (Some e) blockedDates blockedWeeks)
     = [1 ..< Suc (length (List.map_filter weekNumber
                     (generateEmptyWeeks zone (Some s) (Some e) blockedDates blockedWeeks)))]
   \<and> (\<forall>wp \<in> set (generateEmptyWeeks zone (Some s) (Some e) blockedDates blockedWeeks).
        days wp \<noteq> []
        \<and> (weekNumber wp = None \<longleftrightarrow>
             (case find (\<lambda>bw. bw_weekNumber bw = rawWeekOf s wp) blockedWeeks of
                None \<Rightarrow> False
              | Some bw \<Rightarrow> excludeFromCount bw)))"
proof (rule conjI [OF _ ballI])
  let ?G = "generateEmptyWeeks zone (Some s) (Some e) blockedDates blockedWeeks"
  from numberWeeks_counts_up [of zone s e blockedDates blockedWeeks "[1 .. getWeekNum s e]" 1]
  obtain k where k: "List.map_filter weekNumber ?G = [1 ..< 1 + k]"
    unfolding generateEmptyWeeks_closed by blast
  then have "length (List.map_filter weekNumber ?G) = k" by simp
  with k show "List.map_filter weekNumber ?G
      = [1 ..< Suc (length (List.map_filter weekNumber ?G))]"
    by simp
next
  fix wp
  assume "wp \<in> set (generateEmptyWeeks zone (Some s) (Some e) blockedDates blockedWeeks)"
  then obtain j where ne: "days wp \<noteq> []"
    and wk: "\<forall>dp \<in> set (days wp). getWeekNum s (date dp) = j"
    and num: "weekNumber wp = None \<longleftrightarrow>
       (case find (\<lambda>bw. bw_weekNumber bw = j) blockedWeeks of None \<Rightarrow> False
        | Some b \<Rightarrow> excludeFromCount b)"
    by (rule generated_week)
  from ne wk have "rawWeekOf s wp = j" by (simp add: rawWeekOf_def)
  with num ne show "days wp \<noteq> []
        \<and> (weekNumber wp = None \<longleftrightarrow>
             (case find (\<lambda>bw. bw_weekNumber bw = rawWeekOf s wp) blockedWeeks of
                None \<Rightarrow> False
              | Some bw \<Rightarrow> excludeFromCount bw))"
    by simp
qed

theorem week_numbers_sequential_witness:
  "List.map_filter weekNumber
      (generateEmptyWeeks zoneUTC (Some sampleStart) (Some sampleEnd) sampleDates twiceWeeks) = [1, 2, 3]
   \<and> generateEmptyWeeks zoneUTC (Some sampleStart) (Some sampleEnd) sampleDates sampleWeeks ! 1
       \<in> set (generateEmptyWeeks zoneUTC (Some sampleStart) (Some sampleEnd) sampleDates sampleWeeks)
   \<and> weekNumber (generateEmptyWeeks zoneUTC (Some sampleStart) (Some sampleEnd) sampleDates sampleWeeks ! 1)
       = None"
proof -
  let ?T = "generateEmptyWeeks zoneUTC (Some sampleStart) (Some sampleEnd) sampleDates twiceWeeks"
  let ?G = "generateEmptyWeeks zoneUTC (Some sampleStart) (Some sampleEnd) sampleDates sampleWeeks"
  have "length (List.map_filter weekNumber ?T) = 3"
    by code_simp
  with week_numbers_sequential [of zoneUTC sampleStart sampleEnd sampleDates twiceWeeks]
  have "List.map_filter weekNumber ?T = [1 ..< Suc 3]" by simp
  also have "\<dots> = [1, 2, 3]" by code_simp
  finally have first: "List.map_filter weekNumber ?T = [1, 2, 3]" .
  have len: "length ?G = 3"
    using arg_cong [OF sample_shape, of length] by simp
  then have wp: "?G ! 1 \<in> set ?G" by simp
  have "(case find (\<lambda>bw. bw_weekNumber bw = rawWeekOf sampleStart (?G ! 1)) sampleWeeks of
           None \<Rightarrow> False | Some bw \<Rightarrow> excludeFromCount bw)"
    by code_simp
  with week_numbers_sequential [of zoneUTC sampleStart sampleEnd sampleDates sampleWeeks] wp
  have "weekNumber (?G ! 1) = None" by blast
  with first wp show ?thesis by blast
qed

section \<open>Lessons on days\<close>

text \<open>The ids still to be handed out, in order, when the lessons from the cursor on are \<open>ls\<close>.\<close>

lemma distributeDay_free:
  assumes "\<not> isBlocked d" "idx < length lessons"
  shows "lessonId (fst (distributeDay lessons (idx, counter) d)) = Some (lesson_id (lessons ! idx))"
    and "snd (distributeDay lessons (idx, counter) d) =
      (if js_ge (counter + 1) (pacingOr1 (pacing (lessons ! idx))) then (idx + 1, 0)
       else (idx, counter + 1))"
  using assms by (simp_all add: distributeDay_def Let_def)

lemma distributeDay_exhausted:
  assumes "\<not> isBlocked d" "length lessons \<le> idx"
  shows "lessonId (fst (distributeDay lessons (idx, counter) d)) = None"
    and "snd (distributeDay lessons (idx, counter) d) = (idx, counter)"
  using assms by (simp_all add: distributeDay_def Let_def)

lemma distributeDays_sequence:
  fixes need :: "Lesson \<Rightarrow> nat"
  assumes need: "\<And>l. l \<in> set lessons \<Longrightarrow> daysNeeded (pacing l) = Some (need l)"
  shows "(idx < length lessons \<longrightarrow> counter < need (lessons ! idx)) \<Longrightarrow>
     map lessonId (filter (\<lambda>d. \<not> isBlocked d) (fst (distributeDays lessons (idx, counter) ds)))
       = take (length (filter (\<lambda>d. \<not> isBlocked d) ds))
           (drop counter (concat (map (\<lambda>l. replicate (need l) (Some (lesson_id l)))
              (drop idx lessons))))
         @ replicate (length (filter (\<lambda>d. \<not> isBlocked d) ds)
             - length (drop counter (concat (map (\<lambda>l. replicate (need l) (Some (lesson_id l)))
                 (drop idx lessons))))) None"
proof (induction ds arbitrary: idx counter)
  case Nil
  show ?case by simp
next
  case (Cons d ds)
  let ?supply = "\<lambda>i c. drop c (concat (map (\<lambda>l. replicate (need l) (Some (lesson_id l)))
      (drop i lessons)))"
  let ?u = "length (filter (\<lambda>d. \<not> isBlocked d) ds)"
  show ?case
  proof (cases "isBlocked d")
    case True
    with Cons.IH [OF Cons.prems] show ?thesis
      by (simp add: distributeDay_blocked split_beta)
  next
    case free: False
    show ?thesis
    proof (cases "idx < length lessons")
      case False
      then have none: "?supply idx counter = []" by simp
      from False have "idx < length lessons \<longrightarrow> counter < need (lessons ! idx)" by simp
      from Cons.IH [OF this] free False show ?thesis
        by (simp add: split_beta distributeDay_exhausted none)
    next
      case True
      let ?l = "lessons ! idx"
      from True have mem: "?l \<in> set lessons" by simp
      from Cons.prems True have cn: "counter < need ?l" by simp
      have cur: "drop idx lessons = ?l # drop (Suc idx) lessons"
        using True by (simp add: Cons_nth_drop_Suc)
      have ge: "js_ge (counter + 1) (pacingOr1 (pacing ?l)) \<longleftrightarrow> need ?l \<le> counter + 1"
        using js_ge_needed [of "counter + 1" "pacing ?l"] need [OF mem] by simp
      have stock: "?supply idx counter = replicate (need ?l - counter) (Some (lesson_id ?l))
          @ ?supply (Suc idx) 0"
        using cn by (simp add: cur)
      show ?thesis
      proof (cases "need ?l \<le> counter + 1")
        case finished: True
        with cn have "need ?l - counter = 1" by simp
        with stock have step: "?supply idx counter = Some (lesson_id ?l) # ?supply (Suc idx) 0"
          by simp
        have "Suc idx < length lessons \<longrightarrow> 0 < need (lessons ! Suc idx)"
          using need [of "lessons ! Suc idx"] daysNeeded_pos by auto
        from Cons.IH [OF this] free True finished ge show ?thesis
          unfolding step
          by (simp add: split_beta distributeDay_free del: drop_Suc_Cons)
      next
        case unfinished: False
        then have "need ?l - counter = Suc (need ?l - Suc counter)" by simp
        with stock have "?supply idx counter
            = Some (lesson_id ?l) # (replicate (need ?l - Suc counter) (Some (lesson_id ?l))
                @ ?supply (Suc idx) 0)"
          by simp
        moreover have "?supply idx (Suc counter)
            = replicate (need ?l - Suc counter) (Some (lesson_id ?l)) @ ?supply (Suc idx) 0"
          using unfinished by (simp add: cur)
        ultimately have step: "?supply idx counter = Some (lesson_id ?l) # ?supply idx (Suc counter)"
          by simp
        have "idx < length lessons \<longrightarrow> Suc counter < need (lessons ! idx)"
          using unfinished by simp
        from Cons.IH [OF this] free True unfinished ge show ?thesis
          unfolding step
          by (simp add: split_beta distributeDay_free del: drop_Suc_Cons)
      qed
    qed
  qed
qed

lemma whole_pacing:
  assumes "0 < n" "pacing l = Num (of_nat n)"
  shows "daysNeeded (pacing l) = Some n" "pacingDays l = n"
  using assms by (simp_all add: daysNeeded_def pacingDays_def max_def)

lemma whole_pacing_all:
  assumes "\<forall>l \<in> set ls. \<exists>n. 0 < n \<and> pacing l = Num (of_nat n)"
  shows "\<forall>l \<in> set ls. daysNeeded (pacing l) = Some (pacingDays l)"
  using assms whole_pacing by metis

lemma length_supply:
  "length (concat (map (\<lambda>l. replicate (f l) (g l)) ls)) = sum_list (map f ls)"
  by (induction ls) simp_all

lemma sequence_whole:
  assumes "\<forall>l \<in> set lessons. \<exists>n. 0 < n \<and> pacing l = Num (of_nat n)"
  shows "map lessonId (filter (\<lambda>d. \<not> isBlocked d) (allDays (distributeLessons weeks lessons)))
       = take (unblockedDays weeks)
           (concat (map (\<lambda>l. replicate (pacingDays l) (Some (lesson_id l))) lessons))
         @ replicate (unblockedDays weeks - sum_list (map pacingDays lessons)) None"
proof -
  have need: "\<And>l. l \<in> set lessons \<Longrightarrow> daysNeeded (pacing l) = Some (pacingDays l)"
    using whole_pacing_all [OF assms] by blast
  have start: "0 < length lessons \<longrightarrow> 0 < pacingDays (lessons ! 0)"
    using need [of "lessons ! 0"] daysNeeded_pos by auto
  from distributeDays_sequence [of lessons pacingDays 0 0 "allDays weeks", OF need start]
  show ?thesis
    by (simp add: allDays_def distributeLessons_def jsonClone_def distributeWeeks_flat
        unblockedDays_def length_supply)
qed

lemma count_whole:
  assumes whole: "\<forall>l \<in> set lessons. \<exists>n. 0 < n \<and> pacing l = Num (of_nat n)"
    and dist: "distinct (map lesson_id lessons)" and i: "i < length lessons"
  shows "assignedDays (lesson_id (lessons ! i)) (distributeLessons weeks lessons)
     = min (pacingDays (lessons ! i))
         (unblockedDays weeks - sum_list (map pacingDays (take i lessons)))"
proof -
  have split: "lessons = take i lessons @ lessons ! i # drop (Suc i) lessons"
    using i by (simp add: id_take_nth_drop)
  have need: "\<forall>l \<in> set lessons. daysNeeded (pacing l) = Some (pacingDays l)"
    using whole by (rule whole_pacing_all)
  then have pre: "\<forall>x \<in> set (take i lessons). daysNeeded (pacing x) \<noteq> None"
    by (auto dest: in_set_takeD)
  have cur: "daysNeeded (pacing (lessons ! i)) = Some (pacingDays (lessons ! i))"
    using need i by simp
  have same: "map (\<lambda>x. the (daysNeeded (pacing x))) (take i lessons)
      = map pacingDays (take i lessons)"
    using need by (auto dest: in_set_takeD)
  from assigned_days_general [of "take i lessons" "lessons ! i" "drop (Suc i) lessons", OF _ pre cur]
    dist split
  show ?thesis by (simp add: same)
qed

text \<open>
  Claim C3.  When every pacing value is a positive whole number, the ids written on the
  unblocked days, in chronological order, are each lesson's id repeated its pacing value
  many times, lesson after lesson, cut off where the unblocked days run out and followed
  by unassigned days when the lessons run out first.  So, lesson ids being unique, the
  days carrying the id of lesson \<open>i\<close> number its pacing value, or what is left of the
  unblocked days after the lessons before it (possibly none) when that is fewer.  A Day
  Plan has a single optional \<open>lessonId\<close>, hence at most one lesson id.
\<close>

theorem lessons_get_their_pacing:
  "(\<forall>l \<in> set lessons. \<exists>n. 0 < n \<and> pacing l = Num (of_nat n)) \<longrightarrow>
     map lessonId (filter (\<lambda>d. \<not> isBlocked d) (allDays (distributeLessons weeks lessons)))
       = take (unblockedDays weeks)
           (concat (map (\<lambda>l. replicate (pacingDays l) (Some (lesson_id l))) lessons))
         @ replicate (unblockedDays weeks - sum_list (map pacingDays lessons)) None
     \<and> (distinct (map lesson_id lessons) \<longrightarrow>
          (\<forall>i < length lessons.
             assignedDays (lesson_id (lessons ! i)) (distributeLessons weeks lessons)
               = min (pacingDays (lessons ! i))
                   (unblockedDays weeks - sum_list (map pacingDays (take i lessons)))))"
proof (intro impI conjI allI)
  assume "\<forall>l \<in> set lessons. \<exists>n. 0 < n \<and> pacing l = Num (of_nat n)"
  then show "map lessonId (filter (\<lambda>d. \<not> isBlocked d) (allDays (distributeLessons weeks lessons)))
       = take (unblockedDays weeks)
           (concat (map (\<lambda>l. replicate (pacingDays l) (Some (lesson_id l))) lessons))
         @ replicate (unblockedDays weeks - sum_list (map pacingDays lessons)) None"
    by (rule sequence_whole)
next
  fix i
  assume "\<forall>l \<in> set lessons. \<exists>n. 0 < n \<and> pacing l = Num (of_nat n)"
    "distinct (map lesson_id lessons)" "i < length lessons"
  then show "assignedDays (lesson_id (lessons ! i)) (distributeLessons weeks lessons)
               = min (pacingDays (lessons ! i))
                   (unblockedDays weeks - sum_list (map pacingDays (take i lessons)))"
    by (rule count_whole)
qed

lemma whole_sample:
  "\<forall>l \<in> set wholeLessons. \<exists>n. 0 < n \<and> pacing l = Num (of_nat n)"
proof -
  have "0 < (2::nat) \<and> Num 2 = Num (of_nat 2)" "0 < (3::nat) \<and> Num 3 = Num (of_nat 3)"
    "0 < (1::nat) \<and> Num 1 = Num (of_nat 1)"
    by simp_all
  then show ?thesis
    unfolding wholeLessons_def exLesson_def by (simp del: of_nat_numeral)
qed

theorem lessons_get_their_pacing_witness:
  "map lessonId (filter (\<lambda>d. \<not> isBlocked d) (allDays (distributeLessons
       (generateEmptyWeeks zoneUTC (Some sampleStart) (Some sampleEnd) sampleDates sampleWeeks)
       wholeLessons)))
     = [Some ''a'', Some ''a'', Some ''b'']
   \<and> assignedDays ''a'' (distributeLessons
       (generateEmptyWeeks zoneUTC (Some sampleStart) (Some sampleEnd) sampleDates sampleWeeks)
       wholeLessons) = 2
   \<and> assignedDays ''b'' (distributeLessons
       (generateEmptyWeeks zoneUTC (Some sampleStart) (Some sampleEnd) sampleDates sampleWeeks)
       wholeLessons) = 1
   \<and> assignedDays ''c'' (distributeLessons
       (generateEmptyWeeks zoneUTC (Some sampleStart) (Some sampleEnd) sampleDates sampleWeeks)
       wholeLessons) = 0"
proof -
  let ?W = "generateEmptyWeeks zoneUTC (Some sampleStart) (Some sampleEnd) sampleDates sampleWeeks"
  note inst = lessons_get_their_pacing [of wholeLessons ?W]
  have u: "unblockedDays ?W = 3" by code_simp
  have d: "distinct (map lesson_id wholeLessons)" by code_simp
  have len: "length wholeLessons = 3" by code_simp
  have ids: "lesson_id (wholeLessons ! 0) = ''a''" "lesson_id (wholeLessons ! 1) = ''b''"
    "lesson_id (wholeLessons ! 2) = ''c''"
    by code_simp+
  have stream: "take 3 (concat (map (\<lambda>l. replicate (pacingDays l) (Some (lesson_id l))) wholeLessons))
         @ replicate (3 - sum_list (map pacingDays wholeLessons)) None
       = [Some ''a'', Some ''a'', Some ''b'']"
    by code_simp
  have counts: "min (pacingDays (wholeLessons ! 0)) (3 - sum_list (map pacingDays (take 0 wholeLessons))) = 2"
    "min (pacingDays (wholeLessons ! 1)) (3 - sum_list (map pacingDays (take 1 wholeLessons))) = 1"
    "min (pacingDays (wholeLessons ! 2)) (3 - sum_list (map pacingDays (take 2 wholeLessons))) = 0"
    by code_simp+
  from inst whole_sample have seq:
    "map lessonId (filter (\<lambda>d. \<not> isBlocked d) (allDays (distributeLessons ?W wholeLessons)))
       = take (unblockedDays ?W)
           (concat (map (\<lambda>l. replicate (pacingDays l) (Some (lesson_id l))) wholeLessons))
         @ replicate (unblockedDays ?W - sum_list (map pacingDays wholeLessons)) None"
    by blast
  from inst whole_sample d have each: "\<forall>i < length wholeLessons.
      assignedDays (lesson_id (wholeLessons ! i)) (distributeLessons ?W wholeLessons)
        = min (pacingDays (wholeLessons ! i))
            (unblockedDays ?W - sum_list (map pacingDays (take i wholeLessons)))"
    by blast
  from each [rule_format, of 0] each [rule_format, of 1] each [rule_format, of 2]
  have "assignedDays ''a'' (distributeLessons ?W wholeLessons) = 2"
    "assignedDays ''b'' (distributeLessons ?W wholeLessons) = 1"
    "assignedDays ''c'' (distributeLessons ?W wholeLessons) = 0"
    unfolding u ids len counts by simp_all
  moreover from seq have "map lessonId (filter (\<lambda>d. \<not> isBlocked d)
      (allDays (distributeLessons ?W wholeLessons))) = [Some ''a'', Some ''a'', Some ''b'']"
    unfolding u stream .
  ultimately show ?thesis by blast
qed

section \<open>Invalid and inverted ranges\<close>

lemma stats_invalid_or_inverted:
  "start = None \<or> end = None \<or> (\<exists>s e. start = Some s \<and> end = Some e \<and> e < s) \<Longrightarrow>
     calculateInstructionalStats zone start end bds bws = \<lparr>totalDays = 0, totalWeeks = 0\<rparr>"
  by (auto simp: calculateInstructionalStats_def isAfter_def split: option.splits)

lemma ranges_invalid:
  "start = None \<or> end = None \<Longrightarrow> getWeekDateRanges start end = []"
  by (auto simp: getWeekDateRanges_def split: option.splits)

lemma weeks_invalid:
  "start = None \<or> end = None \<Longrightarrow> generateEmptyWeeks zone start end bds bws = []"
  by (auto simp: generateEmptyWeeks_def split: option.splits)

lemma numberWeeks_no_days:
  "(\<And>j wb. j \<in> set js \<Longrightarrow> weekDaysOf zone s e bds wb j = []) \<Longrightarrow>
     numberWeeks zone s e bds bws js cnt = []"
  by (induction js arbitrary: cnt) (simp_all add: Let_def emitWeek_def)

lemma weeks_inverted_days:
  assumes "dayOf e < dayOf s"
  shows "generateEmptyWeeks zone (Some s) (Some e) bds bws = []"
proof -
  have "filter (inRange s e) xs = []" for xs
    using assms by (auto simp: filter_empty_conv inRange_def)
  then have "weekDaysOf zone s e bds wb j = []" for wb j
    by (simp add: weekDaysOf_def)
  then show ?thesis
    unfolding generateEmptyWeeks_closed by (intro numberWeeks_no_days)
qed

text \<open>
  Claim C5 fails on the code for inverted ranges.  With \<open>start\<close> on Wednesday
  4 September 2024, 08:00, and \<open>end\<close> on the Monday before, \<open>getWeekDateRanges\<close> lists
  raw week 1; with \<open>end\<close> on the same Wednesday at 00:00, \<open>generateEmptyWeeks\<close> returns a
  week holding that Wednesday.  Only \<open>calculateInstructionalStats\<close> tests
  \<open>isAfter(start, end)\<close>.
\<close>

theorem inverted_range_not_empty:
  "isAfter sampleStart mondayBefore
   \<and> getWeekDateRanges (Some sampleStart) (Some mondayBefore)
       = [\<lparr>wr_weekNumber = 1, range = (19967, 19971)\<rparr>]
   \<and> calculateInstructionalStats zoneUTC (Some sampleStart) (Some mondayBefore) [] []
       = \<lparr>totalDays = 0, totalWeeks = 0\<rparr>
   \<and> isAfter sampleStart sameMorning
   \<and> map (map date \<circ> days) (generateEmptyWeeks zoneUTC (Some sampleStart) (Some sameMorning) [] [])
       = [[sameMorning]]"
  by code_simp

section \<open>distributeLessons leaves its argument alone\<close>

lemma deref_append: "deref xs r = Some x \<Longrightarrow> deref (xs @ ys) r = Some x"
  by (auto simp: deref_def nth_append split: if_splits)

lemma those_map_mono:
  "those (map f rs) = Some ws \<Longrightarrow> (\<And>r w. r \<in> set rs \<Longrightarrow> f r = Some w \<Longrightarrow> g r = Some w) \<Longrightarrow>
     those (map g rs) = Some ws"
proof (induction rs arbitrary: ws)
  case Nil
  then show ?case by simp
next
  case (Cons r rs)
  from Cons.prems(1) obtain w ws' where w: "f r = Some w" and rest: "those (map f rs) = Some ws'"
    and ws: "ws = w # ws'"
    by (auto split: option.splits)
  from Cons.prems(2) [of r w] w have "g r = Some w" by simp
  moreover from Cons.IH [OF rest] Cons.prems(2) have "those (map g rs) = Some ws'" by simp
  ultimately show ?case using ws by simp
qed

text \<open>A store that only grew reads the same behind every old reference.\<close>

lemma readDays_grown:
  assumes "readDays h a = Some ds"
  shows "readDays (h\<lparr>weekArrays := weekArrays h @ wa, weekObjects := weekObjects h @ wo,
      dayArrays := dayArrays h @ da, dayObjects := dayObjects h @ dob\<rparr>) a = Some ds"
proof -
  from assms obtain rs where rs: "deref (dayArrays h) a = Some rs"
    and ds: "those (map (deref (dayObjects h)) rs) = Some ds"
    by (auto simp: readDays_def split: option.splits)
  from ds have "those (map (deref (dayObjects h @ dob)) rs) = Some ds"
    by (rule those_map_mono) (rule deref_append)
  with deref_append [OF rs, of da] show ?thesis by (simp add: readDays_def)
qed

lemma readWeek_grown:
  assumes "readWeek h r = Some w"
  shows "readWeek (h\<lparr>weekArrays := weekArrays h @ wa, weekObjects := weekObjects h @ wo,
      dayArrays := dayArrays h @ da, dayObjects := dayObjects h @ dob\<rparr>) r = Some w"
proof -
  from assms obtain obj ds where obj: "deref (weekObjects h) r = Some obj"
    and ds: "readDays h (wo_days obj) = Some ds"
    by (auto simp: readWeek_def split: option.splits)
  from assms obj ds deref_append [OF obj, of wo] readDays_grown [OF ds, where wa = wa and wo = wo and da = da and dob = dob]
  show ?thesis by (simp add: readWeek_def)
qed

lemma readWeeks_grown:
  assumes "readWeeks h r = Some ws"
  shows "readWeeks (h\<lparr>weekArrays := weekArrays h @ wa, weekObjects := weekObjects h @ wo,
      dayArrays := dayArrays h @ da, dayObjects := dayObjects h @ dob\<rparr>) r = Some ws"
proof -
  let ?h' = "h\<lparr>weekArrays := weekArrays h @ wa, weekObjects := weekObjects h @ wo,
      dayArrays := dayArrays h @ da, dayObjects := dayObjects h @ dob\<rparr>"
  from assms obtain rs where rs: "deref (weekArrays h) r = Some rs"
    and ws: "those (map (readWeek h) rs) = Some ws"
    by (auto simp: readWeeks_def split: option.splits)
  from ws have "those (map (readWeek ?h') rs) = Some ws"
    by (rule those_map_mono) (rule readWeek_grown)
  with deref_append [OF rs, of wa] show ?thesis by (simp add: readWeeks_def)
qed

text \<open>Allocation of the copy.\<close>

lemma allocWeeks_laidOut:
  assumes "length (weekObjects h0) \<le> length (weekObjects h)"
    "length (dayArrays h0) \<le> length (dayArrays h)"
    "length (dayObjects h0) \<le> length (dayObjects h)"
  shows "\<exists>wo da. fst (allocWeeks h ws) =
           h\<lparr>weekObjects := weekObjects h @ wo, dayArrays := dayArrays h @ da,
             dayObjects := dayObjects h @ concat (map days ws)\<rparr>
         \<and> laidOut h0 (fst (allocWeeks h ws)) (length (dayObjects h)) ws (snd (allocWeeks h ws))"
  using assms
proof (induction ws arbitrary: h)
  case Nil
  have "h = h\<lparr>weekObjects := weekObjects h @ [], dayArrays := dayArrays h @ [],
      dayObjects := dayObjects h @ concat (map days [])\<rparr>"
    by simp
  then show ?case by (metis allocWeeks.simps(1) fst_conv snd_conv laidOut.simps(1))
next
  case (Cons w ws)
  let ?h1 = "fst (allocWeek h w)" and ?r = "snd (allocWeek h w)"
  let ?obj = "\<lparr>wo_weekNumber = weekNumber w, wo_displayWeekLabel = displayWeekLabel w,
      wo_dates = dates w, wo_days = length (dayArrays h), wo_isBlocked = wk_isBlocked w,
      wo_blockLabel = wk_blockLabel w\<rparr>"
  let ?ivl = "[length (dayObjects h) ..< length (dayObjects h) + length (days w)]"
  have h1: "?h1 = h\<lparr>dayObjects := dayObjects h @ days w, dayArrays := dayArrays h @ [?ivl],
      weekObjects := weekObjects h @ [?obj]\<rparr>"
    and r: "?r = length (weekObjects h)"
    by (simp_all add: allocWeek_def Let_def)
  have "length (weekObjects h0) \<le> length (weekObjects ?h1)"
    "length (dayArrays h0) \<le> length (dayArrays ?h1)"
    "length (dayObjects h0) \<le> length (dayObjects ?h1)"
    using Cons.prems by (simp_all add: h1)
  from Cons.IH [OF this] obtain wo da where
    h2: "fst (allocWeeks ?h1 ws) =
           ?h1\<lparr>weekObjects := weekObjects ?h1 @ wo, dayArrays := dayArrays ?h1 @ da,
             dayObjects := dayObjects ?h1 @ concat (map days ws)\<rparr>"
    and lo: "laidOut h0 (fst (allocWeeks ?h1 ws)) (length (dayObjects ?h1)) ws
        (snd (allocWeeks ?h1 ws))"
    by blast
  have unfold: "allocWeeks h (w # ws) = (fst (allocWeeks ?h1 ws), ?r # snd (allocWeeks ?h1 ws))"
    by (simp add: split_beta)
  have shape: "fst (allocWeeks h (w # ws)) =
      h\<lparr>weekObjects := weekObjects h @ (?obj # wo), dayArrays := dayArrays h @ (?ivl # da),
        dayObjects := dayObjects h @ concat (map days (w # ws))\<rparr>"
    unfolding unfold fst_conv h2 by (simp add: h1)
  have "laidOut h0 (fst (allocWeeks h (w # ws))) (length (dayObjects h)) (w # ws)
      (snd (allocWeeks h (w # ws)))"
    using lo Cons.prems unfolding unfold fst_conv snd_conv
    by (simp add: h2 r) (simp add: h1 nth_append)
  with shape show ?case by blast
qed

text \<open>The loops write the packed days over the copy's Day Plan objects.\<close>

lemma packDay_pure:
  assumes "deref (dayObjects h) r = Some day"
  shows "packDay lessons (h, st) r =
     Some (h\<lparr>dayObjects := (dayObjects h)[r := fst (distributeDay lessons st day)]\<rparr>,
           snd (distributeDay lessons st day))"
proof (cases "isBlocked day \<or> length lessons \<le> fst st")
  case True
  with assms show ?thesis
    by (auto simp: packDay_def distributeDay_def Let_def)
next
  case False
  then have "deref lessons (fst st) = Some (lessons ! fst st)" by (simp add: deref_def)
  with False assms show ?thesis
    by (simp add: packDay_def distributeDay_def Let_def)
qed

lemma packDays_interval:
  "dayObjects h = A @ ds @ B \<Longrightarrow>
     packDays lessons (h, st) [length A ..< length A + length ds] =
       Some (h\<lparr>dayObjects := A @ fst (distributeDays lessons st ds) @ B\<rparr>,
             snd (distributeDays lessons st ds))"
proof (induction ds arbitrary: A h st)
  case Nil
  then show ?case by simp
next
  case (Cons d ds)
  let ?d' = "fst (distributeDay lessons st d)" and ?st' = "snd (distributeDay lessons st d)"
  let ?h1 = "h\<lparr>dayObjects := (A @ [?d']) @ ds @ B\<rparr>"
  have upt: "[length A ..< length A + length (d # ds)]
      = length A # [length (A @ [?d']) ..< length (A @ [?d']) + length ds]"
    by (subst upt_rec) simp
  have "deref (dayObjects h) (length A) = Some d"
    using Cons.prems by (simp add: deref_def)
  moreover have "(dayObjects h)[length A := ?d'] = (A @ [?d']) @ ds @ B"
    using Cons.prems by (simp add: list_update_append)
  ultimately have one: "packDay lessons (h, st) (length A) = Some (?h1, ?st')"
    by (simp add: packDay_pure)
  have "dayObjects ?h1 = (A @ [?d']) @ ds @ B" by simp
  from Cons.IH [OF this, of ?st'] one show ?case
    unfolding upt by (simp add: split_beta)
qed

lemma laidOut_dayObjects [simp]:
  "laidOut h0 (h\<lparr>dayObjects := xs\<rparr>) n ws rs = laidOut h0 h n ws rs"
  by (induction h0 h n ws rs rule: laidOut.induct) auto

lemma packWeeks_laidOut:
  "laidOut h0 h (length A) ws rs \<Longrightarrow> dayObjects h = A @ concat (map days ws) @ B \<Longrightarrow>
     packWeeks lessons (h, st) rs =
       Some (h\<lparr>dayObjects := A @ concat (map days (fst (distributeWeeks lessons st ws))) @ B\<rparr>,
             snd (distributeWeeks lessons st ws))"
proof (induction ws arbitrary: rs h A st)
  case Nil
  then have "rs = []" by (cases rs) simp_all
  with Nil show ?case by simp
next
  case (Cons w ws)
  from Cons.prems(1) obtain r rest where rs: "rs = r # rest" by (cases rs) simp_all
  let ?ds' = "fst (distributeDays lessons st (days w))"
  let ?st' = "snd (distributeDays lessons st (days w))"
  let ?h1 = "h\<lparr>dayObjects := (A @ ?ds') @ concat (map days ws) @ B\<rparr>"
  from Cons.prems(1) rs have r: "deref (weekObjects h) r = Some (weekObjects h ! r)"
    and arr: "deref (dayArrays h) (wo_days (weekObjects h ! r))
        = Some [length A ..< length A + length (days w)]"
    and rest: "laidOut h0 h (length A + length (days w)) ws rest"
    by (simp_all add: deref_def)
  have "dayObjects h = A @ days w @ (concat (map days ws) @ B)"
    using Cons.prems(2) by simp
  from packDays_interval [OF this, of lessons st] r arr
  have week: "packWeek lessons (h, st) r = Some (?h1, ?st')"
    by (simp add: packWeek_def)
  have len: "length ?ds' = length (days w)"
    using arg_cong [OF distributeDays_shape [of lessons st "days w"], of length] by simp
  from rest have "laidOut h0 ?h1 (length (A @ ?ds')) ws rest" by (simp add: len)
  moreover have "dayObjects ?h1 = (A @ ?ds') @ concat (map days ws) @ B" by simp
  ultimately have "packWeeks lessons (?h1, ?st') rest =
       Some (?h1\<lparr>dayObjects := (A @ ?ds') @ concat (map days (fst (distributeWeeks lessons ?st' ws))) @ B\<rparr>,
             snd (distributeWeeks lessons ?st' ws))"
    by (rule Cons.IH)
  with week rs show ?case by (simp add: split_beta)
qed

text \<open>Reading the copy back.\<close>

lemma those_deref_interval:
  "those (map (deref (A @ ds @ B)) [length A ..< length A + length ds]) = Some ds"
proof (induction ds arbitrary: A)
  case Nil
  show ?case by simp
next
  case (Cons d ds)
  have upt: "[length A ..< length A + length (d # ds)]
      = length A # [length (A @ [d]) ..< length (A @ [d]) + length ds]"
    by (subst upt_rec) simp
  have "deref (A @ d # ds @ B) (length A) = Some d" by (simp add: deref_def)
  moreover have "those (map (deref ((A @ [d]) @ ds @ B))
      [length (A @ [d]) ..< length (A @ [d]) + length ds]) = Some ds"
    by (rule Cons.IH)
  ultimately show ?case unfolding upt by simp
qed

lemma read_laidOut:
  "laidOut h0 h (length A) ws rs \<Longrightarrow> dayObjects h = A @ concat (map days ws) @ B \<Longrightarrow>
     those (map (readWeek h) rs) = Some ws"
proof (induction ws arbitrary: rs A)
  case Nil
  then have "rs = []" by (cases rs) simp_all
  then show ?case by simp
next
  case (Cons w ws)
  from Cons.prems(1) obtain r rest where rs: "rs = r # rest" by (cases rs) simp_all
  from Cons.prems(1) rs have r: "deref (weekObjects h) r = Some (weekObjects h ! r)"
    and arr: "deref (dayArrays h) (wo_days (weekObjects h ! r))
        = Some [length A ..< length A + length (days w)]"
    and fields: "wo_weekNumber (weekObjects h ! r) = weekNumber w"
      "wo_displayWeekLabel (weekObjects h ! r) = displayWeekLabel w"
      "wo_dates (weekObjects h ! r) = dates w"
      "wo_isBlocked (weekObjects h ! r) = wk_isBlocked w"
      "wo_blockLabel (weekObjects h ! r) = wk_blockLabel w"
    and rest: "laidOut h0 h (length (A @ days w)) ws rest"
    by (simp_all add: deref_def)
  have "dayObjects h = A @ days w @ (concat (map days ws) @ B)"
    using Cons.prems(2) by simp
  then have "readDays h (wo_days (weekObjects h ! r)) = Some (days w)"
    by (simp add: readDays_def arr those_deref_interval)
  with r fields have "readWeek h r = Some w" by (simp add: readWeek_def)
  moreover have "those (map (readWeek h) rest) = Some ws"
    using rest Cons.prems(2) by (intro Cons.IH [of "A @ days w"]) simp_all
  ultimately show ?case using rs by simp
qed

lemma laidOut_packed:
  "laidOut h0 h n ws rs \<Longrightarrow> laidOut h0 h n (fst (distributeWeeks lessons st ws)) rs"
proof (induction ws arbitrary: n rs st)
  case Nil
  then show ?case by simp
next
  case (Cons w ws)
  from Cons.prems obtain r rest where rs: "rs = r # rest" by (cases rs) simp_all
  have len: "length (fst (distributeDays lessons st (days w))) = length (days w)"
    using arg_cong [OF distributeDays_shape [of lessons st "days w"], of length] by simp
  from Cons.prems rs Cons.IH [of "n + length (days w)" rest] show ?case
    by (simp add: split_beta len)
qed

lemma laidOut_same_tables:
  "weekObjects h = weekObjects h' \<Longrightarrow> dayArrays h = dayArrays h' \<Longrightarrow>
     laidOut h0 h n ws rs \<Longrightarrow> laidOut h0 h' n ws rs"
  by (induction h0 h n ws rs rule: laidOut.induct) auto

lemma laidOut_fresh:
  "laidOut h0 h n ws rs \<Longrightarrow>
     list_all (\<lambda>wr.
        length (weekObjects h0) \<le> wr
        \<and> length (dayArrays h0) \<le> wo_days (weekObjects h ! wr)
        \<and> list_all (\<lambda>dr. length (dayObjects h0) \<le> dr)
             (dayArrays h ! wo_days (weekObjects h ! wr))) rs"
  by (induction h0 h n ws rs rule: laidOut.induct) (auto simp: list_all_iff)

lemma distributeLessonsOn_result:
  assumes "readWeeks h weeks = Some ws"
  shows "\<exists>wo da rs.
     distributeLessonsOn lessons h weeks =
       Some (h\<lparr>weekArrays := weekArrays h @ [rs], weekObjects := weekObjects h @ wo,
               dayArrays := dayArrays h @ da,
               dayObjects := dayObjects h @ concat (map days (distributeLessons ws lessons))\<rparr>,
             length (weekArrays h))
     \<and> laidOut h (h\<lparr>weekObjects := weekObjects h @ wo, dayArrays := dayArrays h @ da\<rparr>)
          (length (dayObjects h)) ws rs"
proof -
  from allocWeeks_laidOut [of h h ws] obtain wo da where
    ha: "fst (allocWeeks h ws) =
           h\<lparr>weekObjects := weekObjects h @ wo, dayArrays := dayArrays h @ da,
             dayObjects := dayObjects h @ concat (map days ws)\<rparr>"
    and lo: "laidOut h (fst (allocWeeks h ws)) (length (dayObjects h)) ws (snd (allocWeeks h ws))"
    by auto
  let ?rs = "snd (allocWeeks h ws)"
  let ?h1 = "h\<lparr>weekArrays := weekArrays h @ [?rs], weekObjects := weekObjects h @ wo,
      dayArrays := dayArrays h @ da, dayObjects := dayObjects h @ concat (map days ws)\<rparr>"
  have parse: "jsonParse h ws = (?h1, length (weekArrays h))"
    by (simp add: jsonParse_def split_beta ha)
  have lo1: "laidOut h ?h1 (length (dayObjects h)) ws ?rs"
    using lo unfolding ha by (rule laidOut_same_tables [rotated 2]) simp_all
  have "dayObjects ?h1 = dayObjects h @ concat (map days ws) @ []" by simp
  from packWeeks_laidOut [OF lo1 this, of lessons "(0, 0)"]
  have pack: "packWeeks lessons (?h1, 0, 0) ?rs =
      Some (?h1\<lparr>dayObjects := dayObjects h @ concat (map days (distributeLessons ws lessons))\<rparr>,
            snd (distributeWeeks lessons (0, 0) ws))"
    by (simp add: distributeLessons_def jsonClone_def)
  have "distributeLessonsOn lessons h weeks =
       Some (h\<lparr>weekArrays := weekArrays h @ [?rs], weekObjects := weekObjects h @ wo,
               dayArrays := dayArrays h @ da,
               dayObjects := dayObjects h @ concat (map days (distributeLessons ws lessons))\<rparr>,
             length (weekArrays h))"
    using assms by (simp add: distributeLessonsOn_def parse deref_def pack)
  moreover have "laidOut h (h\<lparr>weekObjects := weekObjects h @ wo, dayArrays := dayArrays h @ da\<rparr>)
      (length (dayObjects h)) ws ?rs"
    using lo unfolding ha by (rule laidOut_same_tables [rotated 2]) simp_all
  ultimately show ?thesis by blast
qed

text \<open>
  Claim C7.  On the store, \<open>distributeLessons\<close> applied to a reference behind which a Week
  Plan sequence can be read returns a reference; every object that existed before the
  call is unchanged, so the argument reads as the same sequence as before; the result
  reads as the packed plan; and every object of the result (its array, its Week Plan
  objects, their \<open>days\<close> arrays and Day Plan objects) was allocated by the call, so the
  result shares nothing with the argument, even where the argument shares parts with
  itself.
\<close>

theorem distributeLessons_does_not_mutate:
  "readWeeks h weeks = Some ws \<longrightarrow>
     (\<exists>h' updatedWeeks.
        distributeLessonsOn lessons h weeks = Some (h', updatedWeeks)
        \<and> unchangedIn h h'
        \<and> readWeeks h' weeks = Some ws
        \<and> readWeeks h' updatedWeeks = Some (distributeLessons ws lessons)
        \<and> allocatedSince h h' updatedWeeks)"
proof
  assume read: "readWeeks h weeks = Some ws"
  from distributeLessonsOn_result [OF read, of lessons] obtain wo da rs where
    run: "distributeLessonsOn lessons h weeks =
       Some (h\<lparr>weekArrays := weekArrays h @ [rs], weekObjects := weekObjects h @ wo,
               dayArrays := dayArrays h @ da,
               dayObjects := dayObjects h @ concat (map days (distributeLessons ws lessons))\<rparr>,
             length (weekArrays h))"
    and lo: "laidOut h (h\<lparr>weekObjects := weekObjects h @ wo, dayArrays := dayArrays h @ da\<rparr>)
          (length (dayObjects h)) ws rs"
    by blast
  let ?h' = "h\<lparr>weekArrays := weekArrays h @ [rs], weekObjects := weekObjects h @ wo,
      dayArrays := dayArrays h @ da,
      dayObjects := dayObjects h @ concat (map days (distributeLessons ws lessons))\<rparr>"
  have frame: "unchangedIn h ?h'" by (simp add: unchangedIn_def)
  have same: "readWeeks ?h' weeks = Some ws"
    using read by (rule readWeeks_grown)
  have lo': "laidOut h ?h' (length (dayObjects h)) (distributeLessons ws lessons) rs"
  proof -
    have "laidOut h (h\<lparr>weekObjects := weekObjects h @ wo, dayArrays := dayArrays h @ da\<rparr>)
        (length (dayObjects h)) (distributeLessons ws lessons) rs"
      using lo unfolding distributeLessons_def jsonClone_def by (rule laidOut_packed)
    then show ?thesis by (rule laidOut_same_tables [rotated 2]) simp_all
  qed
  have "dayObjects ?h' = dayObjects h @ concat (map days (distributeLessons ws lessons)) @ []"
    by simp
  from read_laidOut [OF lo' this]
  have packed: "readWeeks ?h' (length (weekArrays h)) = Some (distributeLessons ws lessons)"
    by (simp add: readWeeks_def deref_def)
  have fresh: "allocatedSince h ?h' (length (weekArrays h))"
    using laidOut_fresh [OF lo'] by (simp add: allocatedSince_def)
  from run frame same packed fresh
  show "\<exists>h' updatedWeeks.
        distributeLessonsOn lessons h weeks = Some (h', updatedWeeks)
        \<and> unchangedIn h h'
        \<and> readWeeks h' weeks = Some ws
        \<and> readWeeks h' updatedWeeks = Some (distributeLessons ws lessons)
        \<and> allocatedSince h h' updatedWeeks"
    by blast
qed

theorem distributeLessons_does_not_mutate_witness:
  "map (map lessonId \<circ> days) (the (readWeeks sharedStore 0))
     = [[Some ''stale'', Some ''stale'', Some ''stale''], [Some ''stale'', Some ''stale'', Some ''stale'']]
   \<and> (\<exists>h' updatedWeeks.
        distributeLessonsOn wholeLessons sharedStore 0 = Some (h', updatedWeeks)
        \<and> unchangedIn sharedStore h'
        \<and> readWeeks h' 0 = readWeeks sharedStore 0
        \<and> map (map lessonId \<circ> days) (the (readWeeks h' updatedWeeks))
            = [[Some ''a'', None, Some ''a''], [Some ''b'', None, Some ''b'']]
        \<and> allocatedSince sharedStore h' updatedWeeks)"
proof -
  obtain ws where ws: "readWeeks sharedStore 0 = Some ws"
    and before: "map (map lessonId \<circ> days) ws
      = [[Some ''stale'', Some ''stale'', Some ''stale''], [Some ''stale'', Some ''stale'', Some ''stale'']]"
    and after: "map (map lessonId \<circ> days) (distributeLessons ws wholeLessons)
      = [[Some ''a'', None, Some ''a''], [Some ''b'', None, Some ''b'']]"
  proof
    show "readWeeks sharedStore 0 = Some (the (readWeeks sharedStore 0))" by code_simp
    show "map (map lessonId \<circ> days) (the (readWeeks sharedStore 0))
      = [[Some ''stale'', Some ''stale'', Some ''stale''], [Some ''stale'', Some ''stale'', Some ''stale'']]"
      by code_simp
    show "map (map lessonId \<circ> days) (distributeLessons (the (readWeeks sharedStore 0)) wholeLessons)
      = [[Some ''a'', None, Some ''a''], [Some ''b'', None, Some ''b'']]"
      by code_simp
  qed
  from distributeLessons_does_not_mutate [of sharedStore 0 ws wholeLessons] ws
  obtain h' r where "distributeLessonsOn wholeLessons sharedStore 0 = Some (h', r)"
    "unchangedIn sharedStore h'" "readWeeks h' 0 = Some ws"
    "readWeeks h' r = Some (distributeLessons ws wholeLessons)"
    "allocatedSince sharedStore h' r"
    by blast
  with ws before after show ?thesis by auto
qed

section \<open>Block labels\<close>






section \<open>Week ranges against generated weeks\<close>

lemma week_has_days_iff:
  assumes "dayOf s \<le> dayOf e" "sundayOfWeek s j \<le> dayOf e"
  shows "weekDaysOf zone s e bds wb j \<noteq> [] \<longleftrightarrow> dayOf s \<le> sundayOfWeek s j + 4"
proof
  assume "weekDaysOf zone s e bds wb j \<noteq> []"
  then obtain dp where "dp \<in> set (weekDaysOf zone s e bds wb j)" by (cases "weekDaysOf zone s e bds wb j") auto
  then obtain d where "d \<le> sundayOfWeek s j + 4" "inRange s e d"
    by (blast dest: weekDaysOf_member)
  then show "dayOf s \<le> sundayOfWeek s j + 4" by (simp add: inRange_def)
next
  assume a: "dayOf s \<le> sundayOfWeek s j + 4"
  define d where "d = max (sundayOfWeek s j) (dayOf s)"
  have "d \<in> set [sundayOfWeek s j .. sundayOfWeek s j + 4]" "inRange s e d"
    using a assms by (auto simp: d_def inRange_def)
  then have "d \<in> set (filter (inRange s e) [sundayOfWeek s j .. sundayOfWeek s j + 4])"
    by simp
  then show "weekDaysOf zone s e bds wb j \<noteq> []"
    unfolding weekDaysOf_def by (metis empty_iff list.map_disc_iff list.set(1))
qed

lemma emitWeek_nonempty:
  "wd \<noteq> [] \<Longrightarrow> \<exists>wp. fst (emitWeek wb wd cnt) = [wp] \<and> days wp = wd"
  by (cases wb) (simp_all add: emitWeek_def)

lemma numberWeeks_emits:
  assumes "j \<in> set js"
    and "weekDaysOf zone s e bds (find (\<lambda>bw. bw_weekNumber bw = j) bws) j \<noteq> []"
  shows "\<exists>wp \<in> set (numberWeeks zone s e bds bws js cnt).
           days wp = weekDaysOf zone s e bds (find (\<lambda>bw. bw_weekNumber bw = j) bws) j"
  using assms(1)
proof (induction js arbitrary: cnt)
  case Nil
  then show ?case by simp
next
  case (Cons i js)
  show ?case
  proof (cases "j = i")
    case True
    let ?wb = "find (\<lambda>bw. bw_weekNumber bw = j) bws"
    from emitWeek_nonempty [OF assms(2), of ?wb cnt] obtain wp where
      "fst (emitWeek ?wb (weekDaysOf zone s e bds ?wb j) cnt) = [wp]"
      "days wp = weekDaysOf zone s e bds ?wb j"
      by blast
    with True show ?thesis by (simp add: Let_def)
  next
    case False
    with Cons.prems have "j \<in> set js" by simp
    from Cons.IH [OF this] show ?thesis by (simp add: Let_def) blast
  qed
qed

lemma rawWeekOf_week:
  assumes "days wp = weekDaysOf zone s e bds wb j" "days wp \<noteq> []"
  shows "rawWeekOf s wp = j"
proof -
  from assms have "hd (days wp) \<in> set (weekDaysOf zone s e bds wb j)" by (metis hd_in_set)
  then show ?thesis
    unfolding rawWeekOf_def by (auto dest!: weekDaysOf_member simp: dayPlanAt_week)
qed

lemma ranges_numbers:
  "map wr_weekNumber (getWeekDateRanges (Some s) (Some e)) =
     filter (\<lambda>j. dayOf s \<le> sundayOfWeek s j + 4) [1 .. getWeekNum s e]"
  by (simp add: getWeekDateRanges_closed comp_def)

lemma week_in_range: "j \<le> getWeekNum s e \<Longrightarrow> sundayOfWeek s j \<le> dayOf e"
  by (simp add: sunday_le_iff getWeekNum_dayOf)

lemma ranges_match_weeks:
  assumes "s \<le> e"
  shows "set (map wr_weekNumber (getWeekDateRanges (Some s) (Some e)))
     = rawWeekOf s ` set (generateEmptyWeeks zone (Some s) (Some e) [] [])"
proof (intro equalityI subsetI)
  have se: "dayOf s \<le> dayOf e" using assms by (rule dayOf_mono)
  fix j
  assume "j \<in> set (map wr_weekNumber (getWeekDateRanges (Some s) (Some e)))"
  then have j: "j \<in> set [1 .. getWeekNum s e]" and thu: "dayOf s \<le> sundayOfWeek s j + 4"
    unfolding ranges_numbers by simp_all
  from j have "sundayOfWeek s j \<le> dayOf e" by (simp add: week_in_range)
  with thu se have "weekDaysOf zone s e [] (find (\<lambda>bw. bw_weekNumber bw = j) []) j \<noteq> []"
    by (simp add: week_has_days_iff)
  from numberWeeks_emits [OF j this, of 1] obtain wp where
    wp: "wp \<in> set (generateEmptyWeeks zone (Some s) (Some e) [] [])"
    and ds: "days wp = weekDaysOf zone s e [] (find (\<lambda>bw. bw_weekNumber bw = j) []) j"
    unfolding generateEmptyWeeks_closed by blast
  from ds \<open>weekDaysOf zone s e [] (find (\<lambda>bw. bw_weekNumber bw = j) []) j \<noteq> []\<close>
  have "rawWeekOf s wp = j" by (intro rawWeekOf_week [OF ds]) simp
  with wp show "j \<in> rawWeekOf s ` set (generateEmptyWeeks zone (Some s) (Some e) [] [])"
    by blast
next
  have se: "dayOf s \<le> dayOf e" using assms by (rule dayOf_mono)
  fix j
  assume "j \<in> rawWeekOf s ` set (generateEmptyWeeks zone (Some s) (Some e) [] [])"
  then obtain wp where wp: "wp \<in> set (generateEmptyWeeks zone (Some s) (Some e) [] [])"
    and j: "j = rawWeekOf s wp" by blast
  from wp obtain i where i: "1 \<le> i" "i \<le> getWeekNum s e" and ne: "days wp \<noteq> []"
    and ds: "days wp = weekDaysOf zone s e [] (find (\<lambda>bw. bw_weekNumber bw = i) []) i"
    by (rule generated_week)
  from rawWeekOf_week [OF ds ne] j have ji: "j = i" by simp
  from i have "sundayOfWeek s i \<le> dayOf e" by (simp add: week_in_range)
  with ne ds se have "dayOf s \<le> sundayOfWeek s i + 4"
    using week_has_days_iff [of s e i zone "[]" "find (\<lambda>bw. bw_weekNumber bw = i) []"] by simp
  with i ji show "j \<in> set (map wr_weekNumber (getWeekDateRanges (Some s) (Some e)))"
    unfolding ranges_numbers by simp
qed

lemma weekend_start:
  assumes "getDay s = 5 \<or> getDay s = 6"
  shows "sundayOfWeek s 1 + 4 < dayOf s"
  using assms by (auto simp: sundayOfWeek_1 firstSunday_def getDay_def dayOf_def)

lemma weekend_ranges:
  assumes "s \<le> e" and wk: "getDay s = 5 \<or> getDay s = 6"
  shows "map wr_weekNumber (getWeekDateRanges (Some s) (Some e)) = [2 .. getWeekNum s e]"
proof -
  have se: "dayOf s \<le> dayOf e" using assms(1) by (rule dayOf_mono)
  have "sundayOfWeek s 1 \<le> dayOf e"
    using firstSunday_bounds [of s] se by (simp add: sundayOfWeek_1)
  then have one: "1 \<le> getWeekNum s e"
    by (simp add: sunday_le_iff getWeekNum_dayOf)
  have later: "dayOf s \<le> sundayOfWeek s j + 4" if "2 \<le> j" for j
  proof -
    have "firstSunday s + 7 \<le> sundayOfWeek s j" using that by (simp add: sundayOfWeek_def)
    with firstSunday_bounds [of s] show ?thesis by linarith
  qed
  have "filter (\<lambda>j. dayOf s \<le> sundayOfWeek s j + 4) [1 .. getWeekNum s e]
      = filter (\<lambda>j. dayOf s \<le> sundayOfWeek s j + 4) [2 .. getWeekNum s e]"
    using one weekend_start [OF wk] by (simp add: upto_rec1 [of 1])
  also have "\<dots> = [2 .. getWeekNum s e]"
    by (rule filter_True) (simp add: later)
  finally show ?thesis by (simp add: ranges_numbers)
qed

text \<open>
  Claim C9.  For a range with \<open>start \<le> end\<close>, the week numbers listed by
  \<open>getWeekDateRanges\<close> are exactly the raw week indices of the Week Plans that
  \<open>generateEmptyWeeks\<close> emits with no exclusions (each of which has a day, whose raw week
  is its index).  When the range starts on a Friday or Saturday, raw week 1 is skipped by
  both: the listed numbers are \<open>2, 3, \<dots>\<close> up to the raw week of \<open>end\<close> (so the first
  one listed is 2), and no emitted week has raw index 1.
\<close>

theorem week_ranges_agree_with_weeks:
  "s \<le> e \<longrightarrow>
     set (map wr_weekNumber (getWeekDateRanges (Some s) (Some e)))
       = rawWeekOf s ` set (generateEmptyWeeks zone (Some s) (Some e) [] [])
     \<and> (\<forall>wp \<in> set (generateEmptyWeeks zone (Some s) (Some e) [] []). days wp \<noteq> [])
     \<and> (getDay s = 5 \<or> getDay s = 6 \<longrightarrow>
          map wr_weekNumber (getWeekDateRanges (Some s) (Some e)) = [2 .. getWeekNum s e]
          \<and> 1 \<notin> rawWeekOf s ` set (generateEmptyWeeks zone (Some s) (Some e) [] []))"
proof (intro impI conjI ballI)
  assume "s \<le> e"
  then show "set (map wr_weekNumber (getWeekDateRanges (Some s) (Some e)))
       = rawWeekOf s ` set (generateEmptyWeeks zone (Some s) (Some e) [] [])"
    by (rule ranges_match_weeks)
next
  fix wp
  assume "wp \<in> set (generateEmptyWeeks zone (Some s) (Some e) [] [])"
  then show "days wp \<noteq> []" by (rule generated_week)
next
  assume "s \<le> e" "getDay s = 5 \<or> getDay s = 6"
  then show "map wr_weekNumber (getWeekDateRanges (Some s) (Some e)) = [2 .. getWeekNum s e]"
    by (rule weekend_ranges)
next
  assume se: "s \<le> e" and wk: "getDay s = 5 \<or> getDay s = 6"
  have "1 \<notin> set (map wr_weekNumber (getWeekDateRanges (Some s) (Some e)))"
    unfolding weekend_ranges [OF se wk] by simp
  then show "1 \<notin> rawWeekOf s ` set (generateEmptyWeeks zone (Some s) (Some e) [] [])"
    unfolding ranges_match_weeks [OF se, where zone = zone] .
qed

theorem week_ranges_agree_with_weeks_witness:
  "fridayStart \<le> sampleEnd \<and> getDay fridayStart = 5
   \<and> set (map wr_weekNumber (getWeekDateRanges (Some fridayStart) (Some sampleEnd)))
       = rawWeekOf fridayStart ` set (generateEmptyWeeks zoneUTC (Some fridayStart) (Some sampleEnd) [] [])
   \<and> map wr_weekNumber (getWeekDateRanges (Some fridayStart) (Some sampleEnd)) = [2, 3]
   \<and> 1 \<notin> rawWeekOf fridayStart ` set (generateEmptyWeeks zoneUTC (Some fridayStart) (Some sampleEnd) [] [])"
proof -
  have le: "fridayStart \<le> sampleEnd" by code_simp
  have fri: "getDay fridayStart = 5" by code_simp
  have upto: "[2 .. getWeekNum fridayStart sampleEnd] = [2, 3]" by code_simp
  note inst = week_ranges_agree_with_weeks [of fridayStart sampleEnd zoneUTC]
  from inst le have same:
    "set (map wr_weekNumber (getWeekDateRanges (Some fridayStart) (Some sampleEnd)))
       = rawWeekOf fridayStart ` set (generateEmptyWeeks zoneUTC (Some fridayStart) (Some sampleEnd) [] [])"
    by blast
  from inst le fri have listed:
    "map wr_weekNumber (getWeekDateRanges (Some fridayStart) (Some sampleEnd))
       = [2 .. getWeekNum fridayStart sampleEnd]"
    by blast
  from inst le fri have skipped:
    "1 \<notin> rawWeekOf fridayStart ` set (generateEmptyWeeks zoneUTC (Some fridayStart) (Some sampleEnd) [] [])"
    by blast
  from listed have "map wr_weekNumber (getWeekDateRanges (Some fridayStart) (Some sampleEnd)) = [2, 3]"
    by (simp only: upto)
  with le fri same skipped show ?thesis by blast
qed

section \<open>Pacing that is not a positive number\<close>

lemma degenerate_needs_one: "degeneratePacing p \<Longrightarrow> daysNeeded p = Some 1"
proof (cases p)
  case (Num r)
  assume "degeneratePacing p"
  with Num have "r < 1" by (simp add: degeneratePacing_def)
  then have "\<lceil>r\<rceil> \<le> 1" by (simp add: ceiling_le_iff)
  then have "nat \<lceil>r\<rceil> \<le> 1" by linarith
  with Num show ?thesis by (simp add: daysNeeded_def max_def)
qed (simp_all add: daysNeeded_def degeneratePacing_def)

lemma degenerate_threshold: "degeneratePacing p \<Longrightarrow> js_ge 1 (pacingOr1 p)"
  using js_ge_needed [of 1 p] degenerate_needs_one [of p] by simp

text \<open>
  Claim C10.  \<open>distributeLessons\<close> returns for every lesson list: on the store, where a
  failed read is a value, it returns a result whenever its argument reads as a Week Plan
  sequence, and its result has the weeks and days of its input.  For pacing that is zero,
  negative, below 1 or not a number, the threshold \<open>Number(pacing) || 1\<close> is reached by
  a counter of 1; so such a lesson (its id being unique, and the lessons before it
  finishing while an unblocked day is left) is assigned exactly one day.
\<close>

theorem degenerate_pacing_takes_one_day:
  "(readWeeks h weeksRef = Some weeks \<longrightarrow> distributeLessonsOn lessons h weeksRef \<noteq> None)
   \<and> map (map isBlocked \<circ> days) (distributeLessons weeks lessons) = map (map isBlocked \<circ> days) weeks
   \<and> (degeneratePacing p \<longrightarrow> js_ge 1 (pacingOr1 p))
   \<and> (degeneratePacing (pacing l) \<longrightarrow>
        distinct (map lesson_id (pre @ l # post)) \<longrightarrow>
        (\<forall>x \<in> set pre. daysNeeded (pacing x) \<noteq> None) \<longrightarrow>
        sum_list (map (\<lambda>x. the (daysNeeded (pacing x))) pre) < unblockedDays weeks \<longrightarrow>
        assignedDays (lesson_id l) (distributeLessons weeks (pre @ l # post)) = 1)"
proof (intro conjI impI)
  assume "readWeeks h weeksRef = Some weeks"
  from distributeLessonsOn_result [OF this, of lessons]
  show "distributeLessonsOn lessons h weeksRef \<noteq> None" by auto
next
  show "map (map isBlocked \<circ> days) (distributeLessons weeks lessons)
      = map (map isBlocked \<circ> days) weeks"
    by (simp add: distributeLessons_def jsonClone_def distributeWeeks_shape)
next
  assume "degeneratePacing p"
  then show "js_ge 1 (pacingOr1 p)" by (rule degenerate_threshold)
next
  assume deg: "degeneratePacing (pacing l)"
    and dist: "distinct (map lesson_id (pre @ l # post))"
    and pre: "\<forall>x \<in> set pre. daysNeeded (pacing x) \<noteq> None"
    and left: "sum_list (map (\<lambda>x. the (daysNeeded (pacing x))) pre) < unblockedDays weeks"
  from assigned_days_general [OF dist pre degenerate_needs_one [OF deg]] left
  show "assignedDays (lesson_id l) (distributeLessons weeks (pre @ l # post)) = 1"
    by simp
qed

theorem degenerate_pacing_takes_one_day_witness:
  "readWeeks sharedStore 0 \<noteq> None \<and> distributeLessonsOn oddLessons sharedStore 0 \<noteq> None
   \<and> degeneratePacing NaN \<and> js_ge 1 (pacingOr1 NaN)
   \<and> degeneratePacing (Num (- 3)) \<and> degeneratePacing (Num (1 / 2)) \<and> degeneratePacing (Num 0)
   \<and> assignedDays ''z'' (distributeLessons
        (generateEmptyWeeks zoneUTC (Some sampleStart) (Some sampleEnd) [] []) oddLessons) = 1
   \<and> assignedDays ''n'' (distributeLessons
        (generateEmptyWeeks zoneUTC (Some sampleStart) (Some sampleEnd) [] []) oddLessons) = 1
   \<and> assignedDays ''h'' (distributeLessons
        (generateEmptyWeeks zoneUTC (Some sampleStart) (Some sampleEnd) [] []) oddLessons) = 1
   \<and> assignedDays ''o'' (distributeLessons
        (generateEmptyWeeks zoneUTC (Some sampleStart) (Some sampleEnd) [] []) oddLessons) = 1"
proof -
  let ?W = "generateEmptyWeeks zoneUTC (Some sampleStart) (Some sampleEnd) [] []"
  have u: "unblockedDays ?W = 9" by code_simp
  have d: "distinct (map lesson_id oddLessons)" by code_simp
  have deg: "degeneratePacing NaN" "degeneratePacing (Num (- 3))" "degeneratePacing (Num (1 / 2))"
    "degeneratePacing (Num 0)"
    by (simp_all add: degeneratePacing_def)
  have z: "oddLessons = [exLesson ''a'' (Num 2)] @ exLesson ''z'' NaN
      # [exLesson ''n'' (Num (- 3)), exLesson ''h'' (Num (1 / 2)), exLesson ''o'' (Num 0),
         exLesson ''u'' PosInf]"
    and n: "oddLessons = [exLesson ''a'' (Num 2), exLesson ''z'' NaN] @ exLesson ''n'' (Num (- 3))
      # [exLesson ''h'' (Num (1 / 2)), exLesson ''o'' (Num 0), exLesson ''u'' PosInf]"
    and h: "oddLessons = [exLesson ''a'' (Num 2), exLesson ''z'' NaN, exLesson ''n'' (Num (- 3))]
      @ exLesson ''h'' (Num (1 / 2)) # [exLesson ''o'' (Num 0), exLesson ''u'' PosInf]"
    and o: "oddLessons = [exLesson ''a'' (Num 2), exLesson ''z'' NaN, exLesson ''n'' (Num (- 3)),
      exLesson ''h'' (Num (1 / 2))] @ exLesson ''o'' (Num 0) # [exLesson ''u'' PosInf]"
    by (simp_all add: oddLessons_def)
  have fin: "\<forall>x \<in> set [exLesson ''a'' (Num 2), exLesson ''z'' NaN, exLesson ''n'' (Num (- 3)),
      exLesson ''h'' (Num (1 / 2))]. daysNeeded (pacing x) \<noteq> None"
    by (simp add: exLesson_def daysNeeded_def)
  have sums: "sum_list (map (\<lambda>x. the (daysNeeded (pacing x)))
        [exLesson ''a'' (Num 2), exLesson ''z'' NaN, exLesson ''n'' (Num (- 3)),
         exLesson ''h'' (Num (1 / 2))]) = 5"
    "sum_list (map (\<lambda>x. the (daysNeeded (pacing x)))
        [exLesson ''a'' (Num 2), exLesson ''z'' NaN, exLesson ''n'' (Num (- 3))]) = 4"
    "sum_list (map (\<lambda>x. the (daysNeeded (pacing x)))
        [exLesson ''a'' (Num 2), exLesson ''z'' NaN]) = 3"
    "sum_list (map (\<lambda>x. the (daysNeeded (pacing x))) [exLesson ''a'' (Num 2)]) = 2"
    by code_simp+
  have rd: "readWeeks sharedStore 0 = Some (the (readWeeks sharedStore 0))" by code_simp
  have rd': "readWeeks sharedStore 0 \<noteq> None" by code_simp
  have run: "distributeLessonsOn oddLessons sharedStore 0 \<noteq> None"
    using degenerate_pacing_takes_one_day [where h = sharedStore and weeksRef = 0
        and weeks = "the (readWeeks sharedStore 0)" and lessons = oddLessons and p = NaN] rd
    by blast
  have thr: "js_ge 1 (pacingOr1 NaN)"
    using degenerate_pacing_takes_one_day [where p = NaN] deg(1) by blast
  have "assignedDays (lesson_id (exLesson ''z'' NaN)) (distributeLessons ?W oddLessons) = 1"
    using degenerate_pacing_takes_one_day [where weeks = ?W and l = "exLesson ''z'' NaN"
        and pre = "[exLesson ''a'' (Num 2)]"
        and post = "[exLesson ''n'' (Num (- 3)), exLesson ''h'' (Num (1 / 2)), exLesson ''o'' (Num 0),
          exLesson ''u'' PosInf]"]
      deg d fin sums u
    unfolding z [symmetric] by (simp add: exLesson_def)
  moreover have "assignedDays (lesson_id (exLesson ''n'' (Num (- 3)))) (distributeLessons ?W oddLessons) = 1"
    using degenerate_pacing_takes_one_day [where weeks = ?W and l = "exLesson ''n'' (Num (- 3))"
        and pre = "[exLesson ''a'' (Num 2), exLesson ''z'' NaN]"
        and post = "[exLesson ''h'' (Num (1 / 2)), exLesson ''o'' (Num 0), exLesson ''u'' PosInf]"]
      deg d fin sums u
    unfolding n [symmetric] by (simp add: exLesson_def)
  moreover have "assignedDays (lesson_id (exLesson ''h'' (Num (1 / 2)))) (distributeLessons ?W oddLessons) = 1"
    using degenerate_pacing_takes_one_day [where weeks = ?W and l = "exLesson ''h'' (Num (1 / 2))"
        and pre = "[exLesson ''a'' (Num 2), exLesson ''z'' NaN, exLesson ''n'' (Num (- 3))]"
        and post = "[exLesson ''o'' (Num 0), exLesson ''u'' PosInf]"]
      deg d fin sums u
    unfolding h [symmetric] by (simp add: exLesson_def)
  moreover have "assignedDays (lesson_id (exLesson ''o'' (Num 0))) (distributeLessons ?W oddLessons) = 1"
    using degenerate_pacing_takes_one_day [where weeks = ?W and l = "exLesson ''o'' (Num 0)"
        and pre = "[exLesson ''a'' (Num 2), exLesson ''z'' NaN, exLesson ''n'' (Num (- 3)),
          exLesson ''h'' (Num (1 / 2))]"
        and post = "[exLesson ''u'' PosInf]"]
      deg d fin sums u
    unfolding o [symmetric] by (simp add: exLesson_def)
  ultimately show ?thesis using deg thr rd' run by (simp add: exLesson_def)
qed

section \<open>Blocked days are passed over\<close>

text \<open>
  Claim C6.  A blocked day leaves \<open>distributeDay\<close> with the same cursor and the same
  counter and carries no lesson; hence in the result of \<open>distributeLessons\<close> no
  blocked Day Plan has a lesson id.
\<close>

theorem blocked_days_never_assigned:
  "(isBlocked day \<longrightarrow>
      distributeDay lessons st day = (day\<lparr>lessonId := None, lessonName := None\<rparr>, st))
   \<and> (\<forall>w \<in> set (distributeLessons weeks lessons). \<forall>d \<in> set (days w).
        isBlocked d \<longrightarrow> lessonId d = None)"
proof (intro conjI impI ballI)
  assume "isBlocked day"
  then show "distributeDay lessons st day = (day\<lparr>lessonId := None, lessonName := None\<rparr>, st)"
    by (rule distributeDay_blocked)
next
  fix w d
  assume w: "w \<in> set (distributeLessons weeks lessons)" and d: "d \<in> set (days w)"
    and b: "isBlocked d"
  from w d have "d \<in> set (concat (map days (fst (distributeWeeks lessons (0, 0) (jsonClone weeks)))))"
    unfolding distributeLessons_def by auto
  then have "d \<in> set (fst (distributeDays lessons (0, 0) (concat (map days (jsonClone weeks)))))"
    by (simp only: distributeWeeks_flat)
  then show "lessonId d = None" using b by (rule distributeDays_blocked_unassigned)
qed

theorem blocked_days_never_assigned_witness:
  "distributeDay [exLesson ''a'' (Num 2)] (0, 1) (exDay 19968 True)
     = ((exDay 19968 True)\<lparr>lessonId := None, lessonName := None\<rparr>, (0, 1))
   \<and> lessonId (days (hd (distributeLessons
        [exWeek [exDay 19967 False, exDay 19968 True, exDay 19969 False]]
        [exLesson ''a'' (Num 2)])) ! 1) = None"
proof -
  let ?ls = "[exLesson ''a'' (Num 2)]"
  let ?ws = "[exWeek [exDay 19967 False, exDay 19968 True, exDay 19969 False]]"
  have b: "isBlocked (exDay 19968 True)" by (simp add: exDay_def)
  have out: "distributeLessons ?ws ?ls =
     [exWeek [(exDay 19967 False)\<lparr>lessonId := Some ''a'', lessonName := Some ''Lesson a''\<rparr>,
              (exDay 19968 True)\<lparr>lessonId := None, lessonName := None\<rparr>,
              (exDay 19969 False)\<lparr>lessonId := Some ''a'', lessonName := Some ''Lesson a''\<rparr>]]"
    by (simp add: distributeLessons_def jsonClone_def distributeDay_def exWeek_def exDay_def
        exLesson_def js_ge_def pacingOr1_def)
  note inst = blocked_days_never_assigned [of "exDay 19968 True" ?ls "(0, 1)" ?ws]
  from inst b have first:
    "distributeDay ?ls (0, 1) (exDay 19968 True)
       = ((exDay 19968 True)\<lparr>lessonId := None, lessonName := None\<rparr>, (0, 1))"
    by blast
  from inst have "\<forall>w \<in> set (distributeLessons ?ws ?ls). \<forall>d \<in> set (days w).
      isBlocked d \<longrightarrow> lessonId d = None"
    by blast
  then have "lessonId (days (hd (distributeLessons ?ws ?ls)) ! 1) = None"
    unfolding out by (simp add: exWeek_def exDay_def)
  with first show ?thesis by blast
qed

end
